theory Spec2Isabelle
  imports Main
begin

section \<open>Data model of \<open>Batch_history.py\<close>\<close>

text \<open>
  Batch numbers are strings that are only compared for equality. A data frame is the list
  of its rows in iteration order; a row exposes the two columns the code reads. Python
  dictionaries are maps; the lists stored in them keep their order.
\<close>

type_synonym batch_id = string

record row =
  FROM_Batch :: batch_id
  TO_Batch :: batch_id

type_synonym batch_dict = "batch_id \<rightharpoonup> batch_id list"

text \<open>
  The logger is the sequence of records handed to the logging library, each with the level
  of the call (\<open>logger.info\<close>, \<open>logger.error\<close>) and the formatted message.
\<close>

datatype level = INFO | ERROR

type_synonym log = "(level \<times> string) list"

section \<open>\<open>BatchHistory\<close>\<close>

text \<open>
  \<^verbatim>\<open>
  from_batch = row['FROM Batch']
  to_batch = row['TO Batch']
  if to_batch not in batch_dict:
      batch_dict[to_batch] = [from_batch]
  else:
      from_batch_list = batch_dict[to_batch]
      if from_batch not in from_batch_list:
          from_batch_list.append(from_batch)
          batch_dict[to_batch] = from_batch_list
  return batch_dict
  \<close>
\<close>

definition update_to_batch_dict :: "row \<Rightarrow> batch_dict \<Rightarrow> batch_dict" where
  "update_to_batch_dict r batch_dict =
     (let from_batch = FROM_Batch r; to_batch = TO_Batch r in
      case batch_dict to_batch of
        None \<Rightarrow> batch_dict(to_batch \<mapsto> [from_batch])
      | Some from_batch_list \<Rightarrow>
          if from_batch \<notin> set from_batch_list
          then batch_dict(to_batch \<mapsto> from_batch_list @ [from_batch])
          else batch_dict)"

text \<open>The loop \<^verbatim>\<open>for index, row in df.iterrows()\<close> of \<open>BatchHistory.apply\<close>.\<close>

fun iterrows :: "row list \<Rightarrow> batch_dict \<Rightarrow> batch_dict" where
  "iterrows [] batch_dict = batch_dict"
| "iterrows (r # df) batch_dict = iterrows df (update_to_batch_dict r batch_dict)"

text \<open>
  \<open>BatchHistory.apply\<close>: the dictionary starts empty, every row is merged, the end is
  logged and the dictionary is returned.
\<close>

definition BatchHistory_apply :: "log \<Rightarrow> row list \<Rightarrow> batch_dict \<times> log" where
  "BatchHistory_apply lg df =
     (iterrows df Map.empty, lg @ [(INFO, ''Finished creating Batch History.'')])"

text \<open>
  The from-batches recorded for one to-batch, in the order of their first occurrence in
  the rows: what the claim about first-seen order is compared with.
\<close>

fun first_seen :: "batch_id list \<Rightarrow> batch_id list \<Rightarrow> batch_id list" where
  "first_seen acc [] = acc"
| "first_seen acc (x # xs) = first_seen (if x \<in> set acc then acc else acc @ [x]) xs"

definition froms_of :: "batch_id \<Rightarrow> row list \<Rightarrow> batch_id list" where
  "froms_of t df = map FROM_Batch (filter (\<lambda>r. TO_Batch r = t) df)"

section \<open>\<open>ReconstructPaths\<close>\<close>

text \<open>
  The instance: the attributes \<open>edges\<close>, \<open>paths\<close> and \<open>sources\<close> that \<open>apply\<close> rebinds
  for every target, the \<open>path_dictionary\<close> created by the constructor, and the logger.
\<close>

type_synonym edges_dict = "batch_id \<rightharpoonup> batch_id list"

record ReconstructPaths =
  edges :: edges_dict
  paths :: "batch_id list list"
  sources :: "batch_id list"
  path_dictionary :: "batch_id \<rightharpoonup> batch_id list list"
  logger :: log

text \<open>
  \<open>__init__\<close>: the class attributes are an empty dictionary and two empty lists; the
  constructor logs and sets \<open>path_dictionary = {}\<close>.
\<close>

definition ReconstructPaths_init :: "log \<Rightarrow> ReconstructPaths" where
  "ReconstructPaths_init lg =
     \<lparr>edges = Map.empty, paths = [], sources = [], path_dictionary = Map.empty,
      logger = lg @ [(INFO, ''Reconstructing Paths'')]\<rparr>"

text \<open>
  \<^verbatim>\<open>
  if v is None:
      edges[u] = []
  else:
      if not (u in edges and v in edges[u]):
          edges.setdefault(u, []).append(v)
  return edges
  \<close>
\<close>

definition add_edge :: "batch_id \<Rightarrow> batch_id option \<Rightarrow> edges_dict \<Rightarrow> edges_dict" where
  "add_edge u v es =
     (case v of
        None \<Rightarrow> es(u \<mapsto> [])
      | Some w \<Rightarrow>
          if \<not> (case es u of None \<Rightarrow> False | Some adj \<Rightarrow> w \<in> set adj)
          then es(u \<mapsto> (case es u of None \<Rightarrow> [] | Some adj \<Rightarrow> adj) @ [w])
          else es)"

text \<open>
  \<open>add_edges\<close> calls itself from inside its loop over the from-batches, and nothing bounds
  the depth of the recursion, so it is a partial function in the option monad: \<open>None\<close> is
  a walk that does not return (the interpreter's recursion limit is not modelled: the
  stack is taken to be unbounded). The two program points are one function on a call
  descriptor: \<open>AddEdges to_batch\<close> is the method entry, \<open>ForFrom to_batch l\<close> the loop
  \<^verbatim>\<open>for from_batch in from_batch_list\<close> with \<open>l\<close> still to visit.
  \<^verbatim>\<open>
  if to_batch in batch_dict:
      from_batch_list = batch_dict[to_batch]
      for from_batch in from_batch_list:
          self.edges = self.add_edge(from_batch, to_batch, self.edges)
          if from_batch in batch_dict:
              self.add_edges(batch_dict, from_batch)
          else:
              self.sources.append(from_batch)
  else:
      self.logger.error('{} not found in the Batch dictionary.'.format(to_batch))
  \<close>
\<close>

datatype add_edges_call = AddEdges batch_id | ForFrom batch_id "batch_id list"

partial_function (option) add_edges_rec ::
  "batch_dict \<Rightarrow> add_edges_call \<Rightarrow> ReconstructPaths \<Rightarrow> ReconstructPaths option" where
  "add_edges_rec batch_dict c s =
     (case c of
        AddEdges to_batch \<Rightarrow>
          (case batch_dict to_batch of
             Some from_batch_list \<Rightarrow> add_edges_rec batch_dict (ForFrom to_batch from_batch_list) s
           | None \<Rightarrow>
               Some (s\<lparr>logger := logger s @
                 [(ERROR, to_batch @ '' not found in the Batch dictionary.'')]\<rparr>))
      | ForFrom to_batch [] \<Rightarrow> Some s
      | ForFrom to_batch (from_batch # rest) \<Rightarrow>
          (let s1 = s\<lparr>edges := add_edge from_batch (Some to_batch) (edges s)\<rparr> in
           if batch_dict from_batch \<noteq> None
           then Option.bind (add_edges_rec batch_dict (AddEdges from_batch) s1)
                  (add_edges_rec batch_dict (ForFrom to_batch rest))
           else add_edges_rec batch_dict (ForFrom to_batch rest)
                  (s1\<lparr>sources := sources s1 @ [from_batch]\<rparr>)))"

definition add_edges :: "batch_dict \<Rightarrow> batch_id \<Rightarrow> ReconstructPaths \<Rightarrow> ReconstructPaths option" where
  "add_edges batch_dict to_batch s = add_edges_rec batch_dict (AddEdges to_batch) s"

text \<open>
  The exceptions the path enumeration can raise: a dictionary lookup of a missing key
  (\<open>edges[u]\<close>, \<open>visited[i]\<close>) and \<open>path.pop()\<close> on an empty list.
\<close>

datatype py_error = KeyError | IndexError

type_synonym visited_dict = "batch_id \<rightharpoonup> bool"

text \<open>
  \<open>determine_all_paths_util\<close> with its loop over \<open>edges[u]\<close>, again as one partial function:
  \<open>Util u\<close> is the method entry, \<open>ForAdj l\<close> the loop \<^verbatim>\<open>for i in edges[u]\<close> with \<open>l\<close> still
  to visit. The dictionary \<open>visited\<close> and the list \<open>path\<close> are mutated in place by every
  call, so they are passed and returned together with the instance.
  \<^verbatim>\<open>
  visited[u] = True
  path.append(u)
  if u == d:
      if path not in self.paths:
          self.paths.append(path.copy())
  else:
      for i in edges[u]:
          if not visited[i]:
              self.determine_all_paths_util(i, d, visited, path, edges)
  path.pop()
  visited[u] = False
  \<close>
\<close>

datatype util_call = Util batch_id | ForAdj "batch_id list"

type_synonym util_state = "visited_dict \<times> batch_id list \<times> ReconstructPaths"

partial_function (option) util_rec ::
  "batch_id \<Rightarrow> edges_dict \<Rightarrow> util_call \<Rightarrow> util_state \<Rightarrow> (py_error + util_state) option" where
  "util_rec d es c st =
     (case st of (visited, path, s) \<Rightarrow>
      (case c of
        Util u \<Rightarrow>
          (let visited1 = visited(u \<mapsto> True); path1 = path @ [u] in
           Option.bind
             (if u = d
              then Some (Inr (visited1, path1,
                     if path1 \<notin> set (paths s) then s\<lparr>paths := paths s @ [path1]\<rparr> else s))
              else (case es u of
                      None \<Rightarrow> Some (Inl KeyError)
                    | Some adj \<Rightarrow> util_rec d es (ForAdj adj) (visited1, path1, s)))
             (\<lambda>r. case r of
                Inl e \<Rightarrow> Some (Inl e)
              | Inr (visited2, path2, s2) \<Rightarrow>
                  if path2 = [] then Some (Inl IndexError)
                  else Some (Inr (visited2(u \<mapsto> False), butlast path2, s2))))
      | ForAdj [] \<Rightarrow> Some (Inr st)
      | ForAdj (i # rest) \<Rightarrow>
          (case visited i of
             None \<Rightarrow> Some (Inl KeyError)
           | Some b \<Rightarrow>
               if \<not> b
               then Option.bind (util_rec d es (Util i) st)
                      (\<lambda>r. case r of
                         Inl e \<Rightarrow> Some (Inl e)
                       | Inr st1 \<Rightarrow> util_rec d es (ForAdj rest) st1)
               else util_rec d es (ForAdj rest) st)))"

definition determine_all_paths_util ::
  "batch_id \<Rightarrow> batch_id \<Rightarrow> visited_dict \<Rightarrow> batch_id list \<Rightarrow> edges_dict \<Rightarrow> ReconstructPaths
     \<Rightarrow> (py_error + util_state) option" where
  "determine_all_paths_util u d visited path es s = util_rec d es (Util u) (visited, path, s)"

text \<open>
  \<open>determine_all_paths\<close>: every key of \<open>edges\<close> is marked not visited, the path starts
  empty, and the two locals are dropped when the helper returns.
\<close>

definition determine_all_paths ::
  "batch_id \<Rightarrow> batch_id \<Rightarrow> edges_dict \<Rightarrow> ReconstructPaths \<Rightarrow> (py_error + ReconstructPaths) option" where
  "determine_all_paths src d es s =
     (let visited = (\<lambda>key. case es key of None \<Rightarrow> None | Some adj \<Rightarrow> Some False);
          path = []
      in Option.bind (determine_all_paths_util src d visited path es s)
           (\<lambda>r. case r of Inl e \<Rightarrow> Some (Inl e) | Inr (visited1, path1, s1) \<Rightarrow> Some (Inr s1)))"

text \<open>The loop \<^verbatim>\<open>for source in self.sources\<close> of \<open>apply\<close>.\<close>

fun for_source ::
  "batch_id list \<Rightarrow> batch_id \<Rightarrow> ReconstructPaths \<Rightarrow> (py_error + ReconstructPaths) option" where
  "for_source [] to_batch s = Some (Inr s)"
| "for_source (src # rest) to_batch s =
     Option.bind (determine_all_paths src to_batch (edges s) s)
       (\<lambda>r. case r of Inl e \<Rightarrow> Some (Inl e) | Inr s1 \<Rightarrow> for_source rest to_batch s1)"

text \<open>
  The body of the loop over the targets in \<open>apply\<close>:
  \<^verbatim>\<open>
  self.edges = {}
  self.paths = []
  self.sources = []
  self.edges = self.add_edge(to_batch, None, self.edges)
  self.add_edges(batch_dict, to_batch)
  for source in self.sources:
      self.determine_all_paths(source, to_batch, self.edges)
  self.path_dictionary[to_batch] = self.paths
  \<close>
\<close>

definition apply_to_batch ::
  "batch_dict \<Rightarrow> batch_id \<Rightarrow> ReconstructPaths \<Rightarrow> (py_error + ReconstructPaths) option" where
  "apply_to_batch batch_dict to_batch s =
     (let s1 = s\<lparr>edges := Map.empty, paths := [], sources := []\<rparr>;
          s2 = s1\<lparr>edges := add_edge to_batch None (edges s1)\<rparr>
      in Option.bind (add_edges batch_dict to_batch s2)
           (\<lambda>s3. Option.bind (for_source (sources s3) to_batch s3)
              (\<lambda>r. case r of
                 Inl e \<Rightarrow> Some (Inl e)
               | Inr s4 \<Rightarrow>
                   Some (Inr (s4\<lparr>path_dictionary := (path_dictionary s4)(to_batch \<mapsto> paths s4)\<rparr>)))))"

fun for_to_batch ::
  "batch_dict \<Rightarrow> batch_id list \<Rightarrow> ReconstructPaths \<Rightarrow> (py_error + ReconstructPaths) option" where
  "for_to_batch batch_dict [] s = Some (Inr s)"
| "for_to_batch batch_dict (to_batch # rest) s =
     Option.bind (apply_to_batch batch_dict to_batch s)
       (\<lambda>r. case r of Inl e \<Rightarrow> Some (Inl e) | Inr s1 \<Rightarrow> for_to_batch batch_dict rest s1)"

text \<open>
  \<open>ReconstructPaths.apply\<close>: the instance after the call; the dictionary the method
  returns is its \<open>path_dictionary\<close>.
\<close>

definition ReconstructPaths_apply ::
  "batch_dict \<Rightarrow> batch_id list \<Rightarrow> ReconstructPaths \<Rightarrow> (py_error + ReconstructPaths) option" where
  "ReconstructPaths_apply batch_dict to_batch_list s =
     Option.bind (for_to_batch batch_dict to_batch_list s)
       (\<lambda>r. case r of
          Inl e \<Rightarrow> Some (Inl e)
        | Inr s1 \<Rightarrow> Some (Inr (s1\<lparr>logger := logger s1 @ [(INFO, ''Finished reconstructing paths.'')]\<rparr>)))"

section \<open>Notions the properties are stated with\<close>

text \<open>
  The backward derivation relation of a lineage map: \<open>(f, t)\<close> when \<open>f\<close> is in the list
  recorded for \<open>t\<close>.
\<close>

definition derives :: "batch_dict \<Rightarrow> (batch_id \<times> batch_id) set" where
  "derives batch_dict = {(f, t). \<exists>l. batch_dict t = Some l \<and> f \<in> set l}"

text \<open>Every node named in an adjacency list of the graph is a key of the graph.\<close>

definition edges_closed :: "edges_dict \<Rightarrow> bool" where
  "edges_closed es = (\<forall>u adj. es u = Some adj \<longrightarrow> set adj \<subseteq> dom es)"

text \<open>The keys that a \<open>visited\<close> dictionary marks as not visited.\<close>

definition unvisited :: "visited_dict \<Rightarrow> batch_id set" where
  "unvisited v = {k. v k = Some False}"

text \<open>
  A branch of the backward walk is a sequence of positions: the first in the from-list
  the walk starts with, every next one in the from-list of the batch the previous one
  selected. \<open>follow\<close> gives the batch a branch ends at, \<open>branches bd l x\<close> are the
  branches that lead from the from-list \<open>l\<close> to \<open>x\<close>, \<open>branches_of bd t x\<close> those that
  lead from the target \<open>t\<close> to \<open>x\<close>. \<open>later\<close> moves a branch one position on in the first
  list.
\<close>

fun follow :: "batch_dict \<Rightarrow> batch_id list \<Rightarrow> nat list \<Rightarrow> batch_id option" where
  "follow bd l [] = None"
| "follow bd l [i] = (if i < length l then Some (l ! i) else None)"
| "follow bd l (i # j # js) =
     (if i < length l
      then (case bd (l ! i) of None \<Rightarrow> None | Some l' \<Rightarrow> follow bd l' (j # js))
      else None)"

definition branches :: "batch_dict \<Rightarrow> batch_id list \<Rightarrow> batch_id \<Rightarrow> nat list set" where
  "branches bd l x = {p. follow bd l p = Some x}"

definition branches_of :: "batch_dict \<Rightarrow> batch_id \<Rightarrow> batch_id \<Rightarrow> nat list set" where
  "branches_of bd t x = (case bd t of None \<Rightarrow> {} | Some l \<Rightarrow> branches bd l x)"

definition later :: "nat list \<Rightarrow> nat list" where
  "later p = (case p of [] \<Rightarrow> [] | i # js \<Rightarrow> Suc i # js)"

text \<open>The rows \<open>(A,B)\<close>, \<open>(A,C)\<close>, \<open>(B,D)\<close>, \<open>(C,D)\<close> of the diamond.\<close>

definition diamond :: "row list" where
  "diamond =
     [\<lparr>FROM_Batch = ''A'', TO_Batch = ''B''\<rparr>, \<lparr>FROM_Batch = ''A'', TO_Batch = ''C''\<rparr>,
      \<lparr>FROM_Batch = ''B'', TO_Batch = ''D''\<rparr>, \<lparr>FROM_Batch = ''C'', TO_Batch = ''D''\<rparr>]"

text \<open>
  The lineage map of the diamond, the instance on which \<open>apply\<close> starts the expansion of
  \<open>D\<close> on a fresh instance, and the instances after reconstructing \<open>[D]\<close>, after
  reconstructing \<open>[B, D]\<close>, and after reconstructing \<open>[D]\<close> and then \<open>[B]\<close> in a
  second call.
\<close>

definition diamond_dict :: batch_dict where
  "diamond_dict = fst (BatchHistory_apply [] diamond)"

definition diamond_start :: ReconstructPaths where
  "diamond_start =
     (ReconstructPaths_init [])\<lparr>edges := Map.empty, paths := [], sources := []\<rparr>
       \<lparr>edges := add_edge ''D'' None Map.empty\<rparr>"

definition diamond_result :: ReconstructPaths where
  "diamond_result =
     \<lparr>edges = [''D'' \<mapsto> [], ''B'' \<mapsto> [''D''], ''C'' \<mapsto> [''D''], ''A'' \<mapsto> [''B'', ''C'']],
      paths = [[''A'', ''B'', ''D''], [''A'', ''C'', ''D'']],
      sources = [''A'', ''A''],
      path_dictionary = [''D'' \<mapsto> [[''A'', ''B'', ''D''], [''A'', ''C'', ''D'']]],
      logger = [(INFO, ''Reconstructing Paths''), (INFO, ''Finished reconstructing paths.'')]\<rparr>"

definition diamond_both :: ReconstructPaths where
  "diamond_both =
     diamond_result\<lparr>path_dictionary :=
       [''B'' \<mapsto> [[''A'', ''B'']], ''D'' \<mapsto> [[''A'', ''B'', ''D''], [''A'', ''C'', ''D'']]]\<rparr>"

definition diamond_second :: ReconstructPaths where
  "diamond_second =
     \<lparr>edges = [''B'' \<mapsto> [], ''A'' \<mapsto> [''B'']],
      paths = [[''A'', ''B'']],
      sources = [''A''],
      path_dictionary =
        [''D'' \<mapsto> [[''A'', ''B'', ''D''], [''A'', ''C'', ''D'']], ''B'' \<mapsto> [[''A'', ''B'']]],
      logger = [(INFO, ''Reconstructing Paths''), (INFO, ''Finished reconstructing paths.''),
                (INFO, ''Finished reconstructing paths.'')]\<rparr>"

section \<open>Evaluation\<close>

lemmas eval_defs =
  Let_def BatchHistory_apply_def update_to_batch_dict_def ReconstructPaths_apply_def
  ReconstructPaths_init_def apply_to_batch_def add_edges_def add_edge_def add_edges_rec.simps
  determine_all_paths_def determine_all_paths_util_def util_rec.simps froms_of_def

section \<open>The lineage map\<close>

lemma update_to_batch_dict_lookup:
  "update_to_batch_dict r bd t =
     (if TO_Batch r = t
      then Some (first_seen (case bd t of None \<Rightarrow> [] | Some l \<Rightarrow> l) [FROM_Batch r])
      else bd t)"
  by (simp add: update_to_batch_dict_def Let_def split: option.splits)

lemma froms_of_Cons:
  "froms_of t (r # df) = (if TO_Batch r = t then FROM_Batch r # froms_of t df else froms_of t df)"
  by (simp add: froms_of_def)

lemma iterrows_lookup:
  "iterrows df bd t =
     (if froms_of t df = [] then bd t
      else Some (first_seen (case bd t of None \<Rightarrow> [] | Some l \<Rightarrow> l) (froms_of t df)))"
proof (induction df arbitrary: bd)
  case Nil
  then show ?case by (simp add: froms_of_def)
next
  case (Cons r df)
  show ?case
    by (simp add: Cons.IH update_to_batch_dict_lookup froms_of_Cons)
qed

lemma distinct_first_seen: "distinct acc \<Longrightarrow> distinct (first_seen acc xs)"
  by (induction xs arbitrary: acc) auto

lemma iterrows_append: "iterrows (df @ df') bd = iterrows df' (iterrows df bd)"
  by (induction df arbitrary: bd) auto

lemma update_to_batch_dict_twice:
  "update_to_batch_dict r (update_to_batch_dict r bd) = update_to_batch_dict r bd"
  by (rule ext) (simp add: update_to_batch_dict_lookup)

text \<open>
  Claim C6. Merging an edge is idempotent: on any lineage map, and so after any sequence
  of rows, merging the same row a second time changes nothing. Every list that
  \<open>BatchHistory.apply\<close> records for a to-batch has no duplicates and holds the from-batches
  of that to-batch in the order of their first occurrence in the rows.
\<close>

theorem edge_merge_idempotent:
  "update_to_batch_dict r (update_to_batch_dict r bd) = update_to_batch_dict r bd \<and>
   iterrows (df @ [r, r]) Map.empty = iterrows (df @ [r]) Map.empty \<and>
   (fst (BatchHistory_apply lg df) t = Some l \<longrightarrow>
      distinct l \<and> l = first_seen [] (froms_of t df))"
proof (intro conjI impI)
  show "update_to_batch_dict r (update_to_batch_dict r bd) = update_to_batch_dict r bd"
    by (rule update_to_batch_dict_twice)
  show "iterrows (df @ [r, r]) Map.empty = iterrows (df @ [r]) Map.empty"
    by (simp add: iterrows_append update_to_batch_dict_twice)
next
  assume a: "fst (BatchHistory_apply lg df) t = Some l"
  then have l: "l = first_seen [] (froms_of t df)"
    by (simp add: BatchHistory_apply_def iterrows_lookup split: if_splits)
  then show "distinct l" by (simp add: distinct_first_seen)
  show "l = first_seen [] (froms_of t df)" by (rule l)
qed

theorem edge_merge_idempotent_witness:
  "fst (BatchHistory_apply [] (diamond @ diamond)) ''D'' = Some [''B'', ''C''] \<and>
   distinct [''B'', ''C''] \<and> [''B'', ''C''] = first_seen [] (froms_of ''D'' (diamond @ diamond))"
  using edge_merge_idempotent [where r = "\<lparr>FROM_Batch = ''A'', TO_Batch = ''B''\<rparr>"
      and bd = Map.empty and df = "diamond @ diamond" and lg = "[]" and t = "''D''"
      and l = "[''B'', ''C'']"]
  by (simp add: diamond_def eval_defs)

section \<open>The diamond\<close>

text \<open>
  Claim C1. For the lineage map built from the diamond, reconstructing target \<open>D\<close> on any
  instance returns, and the dictionary holds for \<open>D\<close> exactly the paths \<open>[A, B, D]\<close> and
  \<open>[A, C, D]\<close>, in this order; \<open>A\<close> is the only batch among the collected sources.
\<close>

theorem diamond_paths:
  "\<exists>s'. ReconstructPaths_apply (fst (BatchHistory_apply lg diamond)) [''D''] s = Some (Inr s') \<and>
     path_dictionary s' ''D'' = Some [[''A'', ''B'', ''D''], [''A'', ''C'', ''D'']] \<and>
     set (sources s') = {''A''}"
  by (simp add: diamond_def eval_defs)

section \<open>Unfolding and induction for \<open>add_edges\<close>\<close>

lemma add_edges_rec_AddEdges:
  "add_edges_rec bd (AddEdges t) s =
     (case bd t of
        Some l \<Rightarrow> add_edges_rec bd (ForFrom t l) s
      | None \<Rightarrow> Some (s\<lparr>logger := logger s @ [(ERROR, t @ '' not found in the Batch dictionary.'')]\<rparr>))"
  by (subst add_edges_rec.simps) simp

lemma add_edges_rec_Nil: "add_edges_rec bd (ForFrom t []) s = Some s"
  by (subst add_edges_rec.simps) simp

lemma add_edges_rec_Cons:
  "add_edges_rec bd (ForFrom t (f # rest)) s =
     (if bd f \<noteq> None
      then Option.bind (add_edges_rec bd (AddEdges f) (s\<lparr>edges := add_edge f (Some t) (edges s)\<rparr>))
             (add_edges_rec bd (ForFrom t rest))
      else add_edges_rec bd (ForFrom t rest)
             (s\<lparr>edges := add_edge f (Some t) (edges s), sources := sources s @ [f]\<rparr>))"
  by (subst add_edges_rec.simps) (simp add: Let_def)

lemma add_edges_rec_induct [consumes 1, case_names NotFound Found Done Rec Src]:
  assumes run: "add_edges_rec bd c s = Some s'"
    and NotFound: "\<And>t s. bd t = None \<Longrightarrow>
          P (AddEdges t) s (s\<lparr>logger := logger s @ [(ERROR, t @ '' not found in the Batch dictionary.'')]\<rparr>)"
    and Found: "\<And>t l s s'. bd t = Some l \<Longrightarrow> add_edges_rec bd (ForFrom t l) s = Some s' \<Longrightarrow>
          P (ForFrom t l) s s' \<Longrightarrow> P (AddEdges t) s s'"
    and Done: "\<And>t s. P (ForFrom t []) s s"
    and Rec: "\<And>t f rest s s1 s'. bd f \<noteq> None \<Longrightarrow>
          add_edges_rec bd (AddEdges f) (s\<lparr>edges := add_edge f (Some t) (edges s)\<rparr>) = Some s1 \<Longrightarrow>
          P (AddEdges f) (s\<lparr>edges := add_edge f (Some t) (edges s)\<rparr>) s1 \<Longrightarrow>
          add_edges_rec bd (ForFrom t rest) s1 = Some s' \<Longrightarrow>
          P (ForFrom t rest) s1 s' \<Longrightarrow> P (ForFrom t (f # rest)) s s'"
    and Src: "\<And>t f rest s s'. bd f = None \<Longrightarrow>
          add_edges_rec bd (ForFrom t rest)
            (s\<lparr>edges := add_edge f (Some t) (edges s), sources := sources s @ [f]\<rparr>) = Some s' \<Longrightarrow>
          P (ForFrom t rest)
            (s\<lparr>edges := add_edge f (Some t) (edges s), sources := sources s @ [f]\<rparr>) s' \<Longrightarrow>
          P (ForFrom t (f # rest)) s s'"
  shows "P c s s'"
proof -
  define Q where "Q = (\<lambda>b c s y. b = bd \<longrightarrow> add_edges_rec bd c s = Some y \<and> P c s y)"
  have "Q bd c s s'"
  proof (rule add_edges_rec.raw_induct [OF _ run], goal_cases)
    case (1 g b c s y)
    show ?case unfolding Q_def
    proof
      assume b: "b = bd"
      show "add_edges_rec bd c s = Some y \<and> P c s y"
      proof (cases c)
        case (AddEdges t)
        show ?thesis
        proof (cases "bd t")
          case None
          with 1(2) AddEdges b show ?thesis
            by (auto simp: add_edges_rec_AddEdges intro: NotFound)
        next
          case (Some l)
          with 1(2) AddEdges b have "g bd (ForFrom t l) s = Some y" by simp
          from 1(1) [OF this, unfolded Q_def] Some AddEdges show ?thesis
            by (auto simp: add_edges_rec_AddEdges intro: Found)
        qed
      next
        case (ForFrom t l)
        show ?thesis
        proof (cases l)
          case Nil
          with 1(2) ForFrom show ?thesis by (auto simp: add_edges_rec_Nil intro: Done)
        next
          case (Cons f rest)
          show ?thesis
          proof (cases "bd f")
            case None
            with 1(2) ForFrom Cons b
            have "g bd (ForFrom t rest) (s\<lparr>edges := add_edge f (Some t) (edges s), sources := sources s @ [f]\<rparr>) = Some y"
              by (simp add: Let_def)
            from 1(1) [OF this, unfolded Q_def] None ForFrom Cons show ?thesis
              by (auto simp: add_edges_rec_Cons intro: Src)
          next
            case (Some l')
            with 1(2) ForFrom Cons b obtain s1 where
              a: "g bd (AddEdges f) (s\<lparr>edges := add_edge f (Some t) (edges s)\<rparr>) = Some s1"
              and c: "g bd (ForFrom t rest) s1 = Some y"
              by (auto simp: Let_def bind_eq_Some_conv)
            from 1(1) [OF a, unfolded Q_def] 1(1) [OF c, unfolded Q_def] Some ForFrom Cons show ?thesis
              by (auto simp: add_edges_rec_Cons intro: Rec)
          qed
        qed
      qed
    qed
  qed
  then show ?thesis by (simp add: Q_def)
qed

section \<open>Unfolding and induction for \<open>determine_all_paths_util\<close>\<close>

lemma util_rec_Util:
  "util_rec d es (Util u) (v, p, s) =
     Option.bind
       (if u = d
        then Some (Inr (v(u \<mapsto> True), p @ [u],
               if p @ [u] \<notin> set (paths s) then s\<lparr>paths := paths s @ [p @ [u]]\<rparr> else s))
        else (case es u of
                None \<Rightarrow> Some (Inl KeyError)
              | Some adj \<Rightarrow> util_rec d es (ForAdj adj) (v(u \<mapsto> True), p @ [u], s)))
       (\<lambda>r. case r of
          Inl e \<Rightarrow> Some (Inl e)
        | Inr (v2, p2, s2) \<Rightarrow>
            if p2 = [] then Some (Inl IndexError)
            else Some (Inr (v2(u \<mapsto> False), butlast p2, s2)))"
  by (subst util_rec.simps) (simp add: Let_def)

lemma util_rec_Nil: "util_rec d es (ForAdj []) st = Some (Inr st)"
  by (subst util_rec.simps) (simp split: prod.splits)

lemma util_rec_Cons:
  "util_rec d es (ForAdj (i # rest)) (v, p, s) =
     (case v i of
        None \<Rightarrow> Some (Inl KeyError)
      | Some b \<Rightarrow>
          if \<not> b
          then Option.bind (util_rec d es (Util i) (v, p, s))
                 (\<lambda>r. case r of
                    Inl e \<Rightarrow> Some (Inl e)
                  | Inr st1 \<Rightarrow> util_rec d es (ForAdj rest) st1)
          else util_rec d es (ForAdj rest) (v, p, s))"
  by (subst util_rec.simps) simp

lemma util_rec_induct [consumes 1, case_names Hit NoAdj AdjErr AdjRet Done NoVis Skip ChildErr ChildRet]:
  assumes run: "util_rec d es c st = Some r"
    and Hit: "\<And>u v p s. u = d \<Longrightarrow>
          P (Util u) (v, p, s)
            (Inr (v(u \<mapsto> False), p,
               if p @ [u] \<notin> set (paths s) then s\<lparr>paths := paths s @ [p @ [u]]\<rparr> else s))"
    and NoAdj: "\<And>u v p s. u \<noteq> d \<Longrightarrow> es u = None \<Longrightarrow> P (Util u) (v, p, s) (Inl KeyError)"
    and AdjErr: "\<And>u v p s adj e. u \<noteq> d \<Longrightarrow> es u = Some adj \<Longrightarrow>
          util_rec d es (ForAdj adj) (v(u \<mapsto> True), p @ [u], s) = Some (Inl e) \<Longrightarrow>
          P (ForAdj adj) (v(u \<mapsto> True), p @ [u], s) (Inl e) \<Longrightarrow>
          P (Util u) (v, p, s) (Inl e)"
    and AdjRet: "\<And>u v p s adj v2 p2 s2. u \<noteq> d \<Longrightarrow> es u = Some adj \<Longrightarrow>
          util_rec d es (ForAdj adj) (v(u \<mapsto> True), p @ [u], s) = Some (Inr (v2, p2, s2)) \<Longrightarrow>
          P (ForAdj adj) (v(u \<mapsto> True), p @ [u], s) (Inr (v2, p2, s2)) \<Longrightarrow>
          P (Util u) (v, p, s)
            (if p2 = [] then Inl IndexError else Inr (v2(u \<mapsto> False), butlast p2, s2))"
    and Done: "\<And>st. P (ForAdj []) st (Inr st)"
    and NoVis: "\<And>i rest v p s. v i = None \<Longrightarrow> P (ForAdj (i # rest)) (v, p, s) (Inl KeyError)"
    and Skip: "\<And>i rest v p s r. v i = Some True \<Longrightarrow>
          util_rec d es (ForAdj rest) (v, p, s) = Some r \<Longrightarrow>
          P (ForAdj rest) (v, p, s) r \<Longrightarrow> P (ForAdj (i # rest)) (v, p, s) r"
    and ChildErr: "\<And>i rest v p s e. v i = Some False \<Longrightarrow>
          util_rec d es (Util i) (v, p, s) = Some (Inl e) \<Longrightarrow>
          P (Util i) (v, p, s) (Inl e) \<Longrightarrow> P (ForAdj (i # rest)) (v, p, s) (Inl e)"
    and ChildRet: "\<And>i rest v p s st1 r. v i = Some False \<Longrightarrow>
          util_rec d es (Util i) (v, p, s) = Some (Inr st1) \<Longrightarrow>
          P (Util i) (v, p, s) (Inr st1) \<Longrightarrow>
          util_rec d es (ForAdj rest) st1 = Some r \<Longrightarrow>
          P (ForAdj rest) st1 r \<Longrightarrow> P (ForAdj (i # rest)) (v, p, s) r"
  shows "P c st r"
proof -
  define Q where
    "Q = (\<lambda>d' es' c st y. d' = d \<and> es' = es \<longrightarrow> util_rec d es c st = Some y \<and> P c st y)"
  have "Q d es c st r"
  proof (rule util_rec.raw_induct [OF _ run], goal_cases)
    case (1 g d' es' c st y)
    show ?case unfolding Q_def
    proof
      assume eq: "d' = d \<and> es' = es"
      obtain v p s where st: "st = (v, p, s)" by (cases st) auto
      have IH: "g d es c' st' = Some y' \<Longrightarrow> util_rec d es c' st' = Some y' \<and> P c' st' y'"
        for c' st' y'
        using 1(1) [of d es c' st' y'] by (simp add: Q_def)
      show "util_rec d es c st = Some y \<and> P c st y"
      proof (cases c)
        case (Util u)
        show ?thesis
        proof (cases "u = d")
          case True
          with 1(2) Util st eq show ?thesis
            by (auto simp: util_rec_Util Let_def intro: Hit)
        next
          case False
          show ?thesis
          proof (cases "es u")
            case None
            with 1(2) Util st eq False show ?thesis
              by (auto simp: util_rec_Util Let_def intro: NoAdj)
          next
            case (Some adj)
            with 1(2) Util st eq False obtain r1 where
              a: "g d es (ForAdj adj) (v(u \<mapsto> True), p @ [u], s) = Some r1"
              and y: "(case r1 of Inl e \<Rightarrow> Some (Inl e)
                       | Inr (v2, p2, s2) \<Rightarrow>
                           if p2 = [] then Some (Inl IndexError)
                           else Some (Inr (v2(u \<mapsto> False), butlast p2, s2))) = Some y"
              by (auto simp: Let_def bind_eq_Some_conv)
            note b = IH [OF a]
            show ?thesis
            proof (cases r1)
              case (Inl e)
              with b y Some False Util st show ?thesis
                using AdjErr [of u adj v p s e] by (auto simp add: util_rec_Util)
            next
              case (Inr st2)
              obtain v2 p2 s2 where st2: "st2 = (v2, p2, s2)" by (cases st2) auto
              with Inr b y Some False Util st show ?thesis
                using AdjRet [of u adj v p s v2 p2 s2] by (auto simp add: util_rec_Util split: if_splits)
            qed
          qed
        qed
      next
        case (ForAdj l)
        show ?thesis
        proof (cases l)
          case Nil
          with 1(2) ForAdj st show ?thesis by (auto simp: util_rec_Nil intro: Done)
        next
          case (Cons i rest)
          show ?thesis
          proof (cases "v i")
            case None
            with 1(2) ForAdj Cons st show ?thesis
              by (auto simp: util_rec_Cons intro: NoVis)
          next
            case (Some b)
            show ?thesis
            proof (cases b)
              case True
              with 1(2) ForAdj Cons st Some eq
              have "g d es (ForAdj rest) (v, p, s) = Some y" by simp
              from IH [OF this] True Some ForAdj Cons st show ?thesis
                by (auto simp: util_rec_Cons intro: Skip)
            next
              case False
              with 1(2) ForAdj Cons st Some eq obtain r1 where
                a: "g d es (Util i) (v, p, s) = Some r1"
                and y: "(case r1 of Inl e \<Rightarrow> Some (Inl e)
                         | Inr st1 \<Rightarrow> g d es (ForAdj rest) st1) = Some y"
                by (auto simp: bind_eq_Some_conv)
              note b = IH [OF a]
              show ?thesis
              proof (cases r1)
                case (Inl e)
                with b y Some False ForAdj Cons st show ?thesis
                  using ChildErr [of v i p s e rest] by (auto simp add: util_rec_Cons)
              next
                case (Inr st1)
                with y have "g d es (ForAdj rest) st1 = Some y" by simp
                from IH [OF this] Inr b Some False ForAdj Cons st show ?thesis
                  using ChildRet [of v i p s st1 rest y] by (auto simp add: util_rec_Cons)
              qed
            qed
          qed
        qed
      qed
    qed
  qed
  then show ?thesis by (simp add: Q_def)
qed

section \<open>When the graph expansion returns\<close>

lemma derives_iff: "(f, t) \<in> derives bd \<longleftrightarrow> (\<exists>l. bd t = Some l \<and> f \<in> set l)"
  by (simp add: derives_def)

lemma no_ancestry_acc: "bd f = None \<Longrightarrow> f \<in> Wellfounded.acc (derives bd)"
  by (rule accI) (simp add: derives_iff)

lemma add_edges_rec_acc:
  assumes "add_edges_rec bd c s = Some s'"
  shows "case c of AddEdges t \<Rightarrow> t \<in> Wellfounded.acc (derives bd)
         | ForFrom t l \<Rightarrow> set l \<subseteq> Wellfounded.acc (derives bd)"
  using assms
proof (induction rule: add_edges_rec_induct)
  case (NotFound t s)
  then show ?case by (simp add: no_ancestry_acc)
next
  case (Found t l s s')
  show ?case
  proof (simp, rule accI)
    fix f assume "(f, t) \<in> derives bd"
    with Found show "f \<in> Wellfounded.acc (derives bd)" by (auto simp: derives_iff)
  qed
next
  case (Done t s)
  then show ?case by simp
next
  case (Rec t f rest s s1 s')
  then show ?case by simp
next
  case (Src t f rest s s')
  then show ?case by (simp add: no_ancestry_acc)
qed

lemma acc_add_edges_rec:
  assumes "t \<in> Wellfounded.acc (derives bd)"
  shows "\<exists>s'. add_edges_rec bd (AddEdges t) s = Some s'"
  using assms
proof (induction t arbitrary: s rule: acc_induct_rule [consumes 1, case_names step])
  case (step t)
  have loop: "set l \<subseteq> {f. (f, t) \<in> derives bd} \<Longrightarrow> \<exists>s'. add_edges_rec bd (ForFrom t l) s = Some s'"
    for l s
  proof (induction l arbitrary: s)
    case Nil
    then show ?case by (simp add: add_edges_rec_Nil)
  next
    case (Cons f rest)
    show ?case
    proof (cases "bd f")
      case None
      with Cons show ?thesis by (simp add: add_edges_rec_Cons)
    next
      case (Some l')
      from Cons.prems have "(f, t) \<in> derives bd" by simp
      from step.IH [OF this] obtain s1 where
        "add_edges_rec bd (AddEdges f) (s\<lparr>edges := add_edge f (Some t) (edges s)\<rparr>) = Some s1"
        by blast
      moreover from Cons obtain s' where "add_edges_rec bd (ForFrom t rest) s1 = Some s'"
        by force
      ultimately show ?thesis using Some by (simp add: add_edges_rec_Cons)
    qed
  qed
  show ?case
  proof (cases "bd t")
    case None
    then show ?thesis by (simp add: add_edges_rec_AddEdges)
  next
    case (Some l)
    then have "set l \<subseteq> {f. (f, t) \<in> derives bd}" by (auto simp: derives_iff)
    from loop [OF this] Some show ?thesis by (simp add: add_edges_rec_AddEdges)
  qed
qed

lemma add_edges_returns_iff:
  "(\<exists>s'. add_edges bd t s = Some s') \<longleftrightarrow> t \<in> Wellfounded.acc (derives bd)"
  using add_edges_rec_acc [of bd "AddEdges t" s] acc_add_edges_rec [of t bd s]
  by (auto simp: add_edges_def)

lemma acc_no_cycle:
  assumes "x \<in> Wellfounded.acc r"
  shows "(x, x) \<notin> r\<^sup>+"
  using assms
proof (induction x rule: acc_induct_rule [consumes 1, case_names step])
  case (step x)
  show ?case
  proof
    assume "(x, x) \<in> r\<^sup>+"
    then obtain y where y: "(x, y) \<in> r\<^sup>*" "(y, x) \<in> r"
      by (meson tranclD2)
    then have "(y, y) \<in> r\<^sup>+" by (meson rtrancl_into_trancl2)
    with step.IH y show False by blast
  qed
qed

lemma finite_derives:
  assumes "finite (dom bd)"
  shows "finite (derives bd)"
proof -
  have "derives bd \<subseteq> (\<Union>t\<in>dom bd. set (the (bd t)) \<times> {t})"
    by (auto simp: derives_def)
  moreover have "finite (\<Union>t\<in>dom bd. set (the (bd t)) \<times> {t})"
    using assms by simp
  ultimately show ?thesis by (rule finite_subset)
qed

lemma acyclic_all_acc:
  assumes "finite (dom bd)" and "acyclic (derives bd)"
  shows "t \<in> Wellfounded.acc (derives bd)"
proof -
  from assms have "wf (derives bd)" by (simp add: finite_acyclic_wf finite_derives)
  then show ?thesis by (simp add: wf_iff_acc)
qed

section \<open>What the path enumeration returns\<close>

lemma util_rec_restores:
  assumes "util_rec d es c st = Some r"
  shows "\<forall>v p s v' p' s'. st = (v, p, s) \<longrightarrow> r = Inr (v', p', s') \<longrightarrow>
           p' = p \<and> (case c of Util u \<Rightarrow> v' = v(u \<mapsto> False) | ForAdj l \<Rightarrow> v' = v)"
  using assms
proof (induction rule: util_rec_induct)
  case (ChildRet i rest v p s st1 r)
  then show ?case by (cases st1) (auto simp: fun_upd_idem)
qed (auto split: if_splits)

lemma util_rec_distinct:
  assumes "util_rec d es c st = Some r"
  shows "\<forall>v p s v' p' s'. st = (v, p, s) \<longrightarrow> r = Inr (v', p', s') \<longrightarrow>
           distinct (paths s) \<longrightarrow> distinct (paths s')"
  using assms
proof (induction rule: util_rec_induct)
  case (ChildRet i rest v p s st1 r)
  then show ?case by (cases st1) auto
qed (auto split: if_splits)

lemma util_rec_effect:
  assumes "util_rec d es c st = Some r"
  shows "\<forall>v p s v' p' s'. st = (v, p, s) \<longrightarrow> r = Inr (v', p', s') \<longrightarrow>
           (\<exists>ps. \<forall>s2. paths s2 = paths s \<longrightarrow>
              util_rec d es c (v, p, s2) = Some (Inr (v', p', s2\<lparr>paths := ps\<rparr>)))"
  using assms
proof (induction rule: util_rec_induct)
  case (Hit u v p s)
  show ?case
    by (intro allI impI exI [of _ "if p @ [u] \<notin> set (paths s) then paths s @ [p @ [u]] else paths s"])
       (use Hit in \<open>auto simp: util_rec_Util\<close>)
next
  case (NoAdj u v p s)
  then show ?case by simp
next
  case (AdjErr u v p s adj e)
  then show ?case by simp
next
  case (AdjRet u v p s adj v2 p2 s2)
  show ?case
  proof (intro allI impI)
    fix va pa sa v' p' s'
    assume st: "(v, p, s) = (va, pa, sa)"
      and r: "(if p2 = [] then Inl IndexError else Inr (v2(u \<mapsto> False), butlast p2, s2)) = Inr (v', p', s')"
    from AdjRet.IH obtain ps where
      ps: "\<And>s3. paths s3 = paths s \<Longrightarrow>
             util_rec d es (ForAdj adj) (v(u \<mapsto> True), p @ [u], s3) = Some (Inr (v2, p2, s3\<lparr>paths := ps\<rparr>))"
      by auto
    show "\<exists>ps. \<forall>s2. paths s2 = paths sa \<longrightarrow>
            util_rec d es (Util u) (va, pa, s2) = Some (Inr (v', p', s2\<lparr>paths := ps\<rparr>))"
      by (rule exI [of _ ps]) (use st r AdjRet.hyps ps in \<open>auto simp: util_rec_Util split: if_splits\<close>)
  qed
next
  case (Done st)
  show ?case
  proof (intro allI impI)
    fix v p s v' p' s'
    assume "st = (v, p, s)" "(Inr st :: py_error + util_state) = Inr (v', p', s')"
    then show "\<exists>ps. \<forall>s2. paths s2 = paths s \<longrightarrow>
            util_rec d es (ForAdj []) (v, p, s2) = Some (Inr (v', p', s2\<lparr>paths := ps\<rparr>))"
      by (intro exI [of _ "paths s"]) (auto simp: util_rec_Nil)
  qed
next
  case (NoVis i rest v p s)
  then show ?case by simp
next
  case (Skip i rest v p s r)
  then show ?case by (auto simp: util_rec_Cons)
next
  case (ChildErr i rest v p s e)
  then show ?case by simp
next
  case (ChildRet i rest v p s st1 r)
  obtain v1 p1 s1 where st1: "st1 = (v1, p1, s1)" by (cases st1) auto
  show ?case
  proof (intro allI impI)
    fix va pa sa v' p' s'
    assume st: "(v, p, s) = (va, pa, sa)" and r: "r = Inr (v', p', s')"
    from ChildRet.IH(1) st1 obtain ps1 where
      ps1: "\<And>s3. paths s3 = paths s \<Longrightarrow>
             util_rec d es (Util i) (v, p, s3) = Some (Inr (v1, p1, s3\<lparr>paths := ps1\<rparr>))"
      by auto
    from ps1 [of s] ChildRet.hyps(2) st1 have s1: "paths s1 = ps1" by auto
    from ChildRet.IH(2) st1 r obtain ps where
      ps: "\<And>s3. paths s3 = paths s1 \<Longrightarrow>
             util_rec d es (ForAdj rest) (v1, p1, s3) = Some (Inr (v', p', s3\<lparr>paths := ps\<rparr>))"
      by auto
    show "\<exists>ps. \<forall>s2. paths s2 = paths sa \<longrightarrow>
            util_rec d es (ForAdj (i # rest)) (va, pa, s2) = Some (Inr (v', p', s2\<lparr>paths := ps\<rparr>))"
    proof (intro exI [of _ ps] allI impI)
      fix s2 :: ReconstructPaths assume "paths s2 = paths sa"
      with st have a: "util_rec d es (Util i) (v, p, s2) = Some (Inr (v1, p1, s2\<lparr>paths := ps1\<rparr>))"
        using ps1 [of s2] by auto
      have "util_rec d es (ForAdj rest) (v1, p1, s2\<lparr>paths := ps1\<rparr>)
              = Some (Inr (v', p', s2\<lparr>paths := ps1\<rparr>\<lparr>paths := ps\<rparr>))"
        by (rule ps) (simp add: s1)
      with a st ChildRet.hyps(1)
      show "util_rec d es (ForAdj (i # rest)) (va, pa, s2) = Some (Inr (v', p', s2\<lparr>paths := ps\<rparr>))"
        by (auto simp: util_rec_Cons)
    qed
  qed
qed

lemma util_rec_no_error:
  assumes "util_rec d es c st = Some r"
  shows "\<forall>v p s. st = (v, p, s) \<longrightarrow> edges_closed es \<longrightarrow> dom es \<subseteq> dom v \<longrightarrow>
           (case c of Util u \<Rightarrow> u = d \<or> u \<in> dom es | ForAdj l \<Rightarrow> set l \<subseteq> dom es) \<longrightarrow>
           (\<exists>st'. r = Inr st')"
  using assms
proof (induction rule: util_rec_induct)
  case (AdjErr u v p s adj e)
  then show ?case by (auto simp: edges_closed_def)
next
  case (AdjRet u v p s adj v2 p2 s2)
  from util_rec_restores [OF AdjRet.hyps(3)] have "p2 = p @ [u]" by simp
  then show ?case by simp
next
  case (ChildRet i rest v p s st1 r)
  obtain v1 p1 s1 where st1: "st1 = (v1, p1, s1)" by (cases st1) auto
  from util_rec_restores [OF ChildRet.hyps(2)] st1 ChildRet.hyps(1) have "v1 = v"
    by (auto simp: fun_upd_idem)
  with ChildRet st1 show ?case by auto
next
  case (ChildErr i rest v p s e)
  then show ?case by (auto simp: edges_closed_def)
qed (auto split: if_splits)

section \<open>The path enumeration returns on every finite graph\<close>

lemma unvisited_mark: "unvisited (v(u \<mapsto> True)) = unvisited v - {u}"
  by (auto simp: unvisited_def)

lemma util_rec_Util_returns_if:
  assumes "\<And>adj. es u = Some adj \<Longrightarrow> \<exists>r. util_rec d es (ForAdj adj) (v(u \<mapsto> True), p @ [u], s) = Some r"
  shows "\<exists>r. util_rec d es (Util u) (v, p, s) = Some r"
proof (cases "u = d")
  case True
  then show ?thesis by (simp add: util_rec_Util)
next
  case False
  show ?thesis
  proof (cases "es u")
    case None
    with False show ?thesis by (simp add: util_rec_Util)
  next
    case (Some adj)
    from assms [OF this] obtain r where
      "util_rec d es (ForAdj adj) (v(u \<mapsto> True), p @ [u], s) = Some r" by blast
    with False Some show ?thesis
      by (cases r) (auto simp: util_rec_Util)
  qed
qed

lemma util_rec_ForAdj_returns:
  assumes "finite (unvisited v)"
  shows "\<exists>r. util_rec d es (ForAdj l) (v, p, s) = Some r"
  using assms
proof (induction "card (unvisited v)" arbitrary: v l p s rule: less_induct)
  case less
  show ?case
  proof (induction l arbitrary: p s)
    case Nil
    show ?case by (simp add: util_rec_Nil)
  next
    case (Cons i rest)
    show ?case
    proof (cases "v i")
      case None
      then show ?thesis by (simp add: util_rec_Cons)
    next
      case (Some b)
      show ?thesis
      proof (cases b)
        case True
        with Some Cons [of p s] show ?thesis by (simp add: util_rec_Cons)
      next
        case False
        with Some have i: "i \<in> unvisited v" by (simp add: unvisited_def)
        with less.prems have "card (unvisited (v(i \<mapsto> True))) < card (unvisited v)"
          unfolding unvisited_mark by (rule card_Diff1_less)
        moreover from less.prems have "finite (unvisited (v(i \<mapsto> True)))"
          by (simp add: unvisited_mark)
        ultimately have "\<exists>r. util_rec d es (ForAdj adj) (v(i \<mapsto> True), p @ [i], s) = Some r" for adj
          by (rule less.hyps)
        then obtain r1 where r1: "util_rec d es (Util i) (v, p, s) = Some r1"
          using util_rec_Util_returns_if [of es i d v p s] by blast
        show ?thesis
        proof (cases r1)
          case (Inl e)
          with r1 Some False show ?thesis by (simp add: util_rec_Cons)
        next
          case (Inr st1)
          obtain v1 p1 s1 where st1: "st1 = (v1, p1, s1)" by (cases st1) auto
          from util_rec_restores [OF r1] Inr st1 Some False have "v1 = v" "p1 = p"
            by (auto simp: fun_upd_idem)
          with Cons [of p s1] r1 Inr st1 Some False show ?thesis
            by (simp add: util_rec_Cons)
        qed
      qed
    qed
  qed
qed

lemma util_rec_returns:
  assumes "finite (dom v)"
  shows "\<exists>r. util_rec d es c (v, p, s) = Some r"
proof -
  have fin: "finite (unvisited v')" if "dom v' \<subseteq> insert u (dom v)" for v' u
  proof -
    have "unvisited v' \<subseteq> dom v'" by (auto simp: unvisited_def)
    with that assms show ?thesis by (meson finite_insert finite_subset)
  qed
  show ?thesis
  proof (cases c)
    case (Util u)
    have "finite (unvisited (v(u \<mapsto> True)))" by (rule fin [of _ u]) auto
    then show ?thesis
      unfolding Util by (intro util_rec_Util_returns_if util_rec_ForAdj_returns)
  next
    case (ForAdj l)
    have "finite (unvisited v)" by (rule fin [of _ undefined]) auto
    then show ?thesis unfolding ForAdj by (rule util_rec_ForAdj_returns)
  qed
qed

section \<open>What the graph expansion builds\<close>

lemma add_edge_other: "x \<noteq> u \<Longrightarrow> add_edge u w es x = es x"
  by (simp add: add_edge_def split: option.splits)

lemma dom_add_edge: "dom (add_edge u w es) = insert u (dom es)"
  by (auto simp: add_edge_def split: option.splits if_splits)

lemma edges_closed_add_edge:
  assumes "edges_closed es" and "t \<in> dom es"
  shows "edges_closed (add_edge f (Some t) es)"
  unfolding edges_closed_def
proof (intro allI impI)
  fix u adj assume a: "add_edge f (Some t) es u = Some adj"
  show "set adj \<subseteq> dom (add_edge f (Some t) es)"
  proof (cases "u = f")
    case True
    with a have "set adj \<subseteq> insert t (case es f of None \<Rightarrow> {} | Some l \<Rightarrow> set l)"
      by (auto simp: add_edge_def split: option.splits if_splits)
    moreover from assms have "(case es f of None \<Rightarrow> {} | Some l \<Rightarrow> set l) \<subseteq> dom es"
      by (auto simp: edges_closed_def split: option.splits)
    ultimately show ?thesis using assms(2) by (auto simp: dom_add_edge)
  next
    case False
    with a assms show ?thesis
      by (auto simp: add_edge_other dom_add_edge edges_closed_def)
  qed
qed

lemma add_edges_rec_effect:
  assumes "add_edges_rec bd c s = Some s'"
  shows "\<exists>E S new. \<forall>s2. edges s2 = edges s \<and> sources s2 = sources s \<longrightarrow>
           add_edges_rec bd c s2 = Some (s2\<lparr>edges := E, sources := S, logger := logger s2 @ new\<rparr>)"
  using assms
proof (induction rule: add_edges_rec_induct)
  case (NotFound t s)
  show ?case
    by (intro exI [of _ "edges s"] exI [of _ "sources s"]
          exI [of _ "[(ERROR, t @ '' not found in the Batch dictionary.'')]"])
       (use NotFound in \<open>auto simp: add_edges_rec_AddEdges\<close>)
next
  case (Found t l s s')
  then show ?case by (simp add: add_edges_rec_AddEdges)
next
  case (Done t s)
  show ?case
    by (intro exI [of _ "edges s"] exI [of _ "sources s"] exI [of _ "[]"])
       (auto simp: add_edges_rec_Nil)
next
  case (Rec t f rest s s1 s')
  from Rec.IH(1) obtain E1 S1 new1 where
    1: "\<And>s2. edges s2 = add_edge f (Some t) (edges s) \<Longrightarrow> sources s2 = sources s \<Longrightarrow>
          add_edges_rec bd (AddEdges f) s2 = Some (s2\<lparr>edges := E1, sources := S1, logger := logger s2 @ new1\<rparr>)"
    by auto
  from 1 [of "s\<lparr>edges := add_edge f (Some t) (edges s)\<rparr>"] Rec.hyps(2)
  have s1: "edges s1 = E1" "sources s1 = S1" by auto
  from Rec.IH(2) s1 obtain E S new2 where
    2: "\<And>s2. edges s2 = E1 \<Longrightarrow> sources s2 = S1 \<Longrightarrow>
          add_edges_rec bd (ForFrom t rest) s2 = Some (s2\<lparr>edges := E, sources := S, logger := logger s2 @ new2\<rparr>)"
    by auto
  show ?case
  proof (intro exI [of _ E] exI [of _ S] exI [of _ "new1 @ new2"] allI impI)
    fix s2 :: ReconstructPaths
    assume a: "edges s2 = edges s \<and> sources s2 = sources s"
    have "add_edges_rec bd (AddEdges f) (s2\<lparr>edges := add_edge f (Some t) (edges s2)\<rparr>)
            = Some (s2\<lparr>edges := E1, sources := S1, logger := logger s2 @ new1\<rparr>)"
      using 1 [of "s2\<lparr>edges := add_edge f (Some t) (edges s2)\<rparr>"] a by simp
    moreover have "add_edges_rec bd (ForFrom t rest) (s2\<lparr>edges := E1, sources := S1, logger := logger s2 @ new1\<rparr>)
            = Some (s2\<lparr>edges := E, sources := S, logger := logger s2 @ new1 @ new2\<rparr>)"
      using 2 [of "s2\<lparr>edges := E1, sources := S1, logger := logger s2 @ new1\<rparr>"] by simp
    ultimately show "add_edges_rec bd (ForFrom t (f # rest)) s2
            = Some (s2\<lparr>edges := E, sources := S, logger := logger s2 @ new1 @ new2\<rparr>)"
      using Rec.hyps(1) by (simp add: add_edges_rec_Cons)
  qed
next
  case (Src t f rest s s')
  from Src.IH obtain E S new where
    1: "\<And>s2. edges s2 = add_edge f (Some t) (edges s) \<Longrightarrow> sources s2 = sources s @ [f] \<Longrightarrow>
          add_edges_rec bd (ForFrom t rest) s2 = Some (s2\<lparr>edges := E, sources := S, logger := logger s2 @ new\<rparr>)"
    by auto
  show ?case
  proof (intro exI [of _ E] exI [of _ S] exI [of _ new] allI impI)
    fix s2 :: ReconstructPaths
    assume a: "edges s2 = edges s \<and> sources s2 = sources s"
    show "add_edges_rec bd (ForFrom t (f # rest)) s2
            = Some (s2\<lparr>edges := E, sources := S, logger := logger s2 @ new\<rparr>)"
      using 1 [of "s2\<lparr>edges := add_edge f (Some t) (edges s2), sources := sources s2 @ [f]\<rparr>"] a Src.hyps(1)
      by (simp add: add_edges_rec_Cons)
  qed
qed

lemma add_edges_rec_changes:
  assumes "add_edges_rec bd c s = Some s'"
  shows "\<forall>x. edges s' x \<noteq> edges s x \<longrightarrow>
           (case c of AddEdges t \<Rightarrow> (x, t) \<in> (derives bd)\<^sup>+
            | ForFrom t l \<Rightarrow> \<exists>f\<in>set l. (x, f) \<in> (derives bd)\<^sup>*)"
  using assms
proof (induction rule: add_edges_rec_induct)
  case (NotFound t s)
  then show ?case by simp
next
  case (Found t l s s')
  show ?case
  proof (intro allI impI, simp)
    fix x assume "edges s' x \<noteq> edges s x"
    with Found.IH obtain f where f: "f \<in> set l" "(x, f) \<in> (derives bd)\<^sup>*" by auto
    with Found.hyps(1) have "(f, t) \<in> derives bd" by (simp add: derives_iff)
    with f show "(x, t) \<in> (derives bd)\<^sup>+" by (meson rtrancl_into_trancl1)
  qed
next
  case (Done t s)
  then show ?case by simp
next
  case (Rec t f rest s s1 s')
  show ?case
  proof (intro allI impI, simp)
    fix x assume x: "edges s' x \<noteq> edges s x"
    show "(x, f) \<in> (derives bd)\<^sup>* \<or> (\<exists>f\<in>set rest. (x, f) \<in> (derives bd)\<^sup>*)"
    proof (cases "edges s' x = edges s1 x")
      case False
      with Rec.IH(2) show ?thesis by simp
    next
      case True
      show ?thesis
      proof (cases "x = f")
        case True
        then show ?thesis by simp
      next
        case False
        with x True have "edges s1 x \<noteq> edges (s\<lparr>edges := add_edge f (Some t) (edges s)\<rparr>) x"
          by (simp add: add_edge_other)
        with Rec.IH(1) have "(x, f) \<in> (derives bd)\<^sup>+" by simp
        then have "(x, f) \<in> (derives bd)\<^sup>*" by (rule trancl_into_rtrancl)
        then show ?thesis by blast
      qed
    qed
  qed
next
  case (Src t f rest s s')
  show ?case
  proof (intro allI impI, simp)
    fix x assume x: "edges s' x \<noteq> edges s x"
    show "(x, f) \<in> (derives bd)\<^sup>* \<or> (\<exists>f\<in>set rest. (x, f) \<in> (derives bd)\<^sup>*)"
    proof (cases "x = f")
      case True
      then show ?thesis by simp
    next
      case False
      with x Src.IH show ?thesis by (simp add: add_edge_other)
    qed
  qed
qed

lemma add_edges_rec_closed:
  assumes "add_edges_rec bd c s = Some s'"
  shows "edges_closed (edges s) \<longrightarrow> set (sources s) \<subseteq> dom (edges s) \<longrightarrow>
           (case c of AddEdges t \<Rightarrow> t \<in> dom (edges s) | ForFrom t l \<Rightarrow> t \<in> dom (edges s)) \<longrightarrow>
           edges_closed (edges s') \<and> set (sources s') \<subseteq> dom (edges s') \<and>
           dom (edges s) \<subseteq> dom (edges s')"
  using assms
proof (induction rule: add_edges_rec_induct)
  case (Rec t f rest s s1 s')
  show ?case
  proof (intro impI)
    assume a: "edges_closed (edges s)" "set (sources s) \<subseteq> dom (edges s)"
      "case ForFrom t (f # rest) of AddEdges t \<Rightarrow> t \<in> dom (edges s) | ForFrom t l \<Rightarrow> t \<in> dom (edges s)"
    then have t: "t \<in> dom (edges s)" by simp
    with a Rec.IH(1) have 1: "edges_closed (edges s1)" "set (sources s1) \<subseteq> dom (edges s1)"
      "insert f (dom (edges s)) \<subseteq> dom (edges s1)"
      by (auto simp: edges_closed_add_edge dom_add_edge)
    with t have "t \<in> dom (edges s1)" by blast
    with 1 Rec.IH(2) have "edges_closed (edges s')" "set (sources s') \<subseteq> dom (edges s')"
      "dom (edges s1) \<subseteq> dom (edges s')"
      by simp_all
    with 1(3) show "edges_closed (edges s') \<and> set (sources s') \<subseteq> dom (edges s') \<and>
           dom (edges s) \<subseteq> dom (edges s')"
      by blast
  qed
next
  case (Src t f rest s s')
  show ?case
  proof (intro impI)
    assume a: "edges_closed (edges s)" "set (sources s) \<subseteq> dom (edges s)"
      "case ForFrom t (f # rest) of AddEdges t \<Rightarrow> t \<in> dom (edges s) | ForFrom t l \<Rightarrow> t \<in> dom (edges s)"
    then have t: "t \<in> dom (edges s)" by simp
    with a Src.IH show "edges_closed (edges s') \<and> set (sources s') \<subseteq> dom (edges s') \<and>
           dom (edges s) \<subseteq> dom (edges s')"
      by (auto simp: edges_closed_add_edge dom_add_edge)
  qed
qed auto

lemma add_edges_rec_finite:
  assumes "add_edges_rec bd c s = Some s'"
  shows "finite (dom (edges s)) \<longrightarrow> finite (dom (edges s'))"
  using assms
  by (induction rule: add_edges_rec_induct) (auto simp: dom_add_edge)

lemma add_edges_rec_sources:
  assumes "add_edges_rec bd c s = Some s'"
  shows "\<exists>new. sources s' = sources s @ new \<and> (\<forall>x\<in>set new. bd x = None)"
  using assms
  by (induction rule: add_edges_rec_induct) auto

section \<open>One source, all sources\<close>

lemma bind_sum_eq_Inr:
  "Option.bind m (\<lambda>r. case r of Inl e \<Rightarrow> Some (Inl e) | Inr x \<Rightarrow> k x) = Some (Inr y)
     \<longleftrightarrow> (\<exists>x. m = Some (Inr x) \<and> k x = Some (Inr y))"
proof (cases m)
  case None
  then show ?thesis by simp
next
  case (Some r)
  then show ?thesis by (cases r) auto
qed

lemma determine_all_paths_cases:
  "determine_all_paths src d es s =
     (case util_rec d es (Util src) (\<lambda>key. case es key of None \<Rightarrow> None | Some adj \<Rightarrow> Some False, [], s) of
        None \<Rightarrow> None
      | Some (Inl e) \<Rightarrow> Some (Inl e)
      | Some (Inr (v, p, s1)) \<Rightarrow> Some (Inr s1))"
  by (simp add: determine_all_paths_def determine_all_paths_util_def
      split: option.splits sum.splits prod.splits)

lemma dom_not_visited: "dom (\<lambda>key. case es key of None \<Rightarrow> None | Some adj \<Rightarrow> Some False) = dom es"
  by (auto split: option.splits)

lemma determine_all_paths_effect:
  assumes "determine_all_paths src d es s = Some (Inr s')"
  shows "\<exists>ps. (distinct (paths s) \<longrightarrow> distinct ps) \<and>
           (\<forall>s2. paths s2 = paths s \<longrightarrow> determine_all_paths src d es s2 = Some (Inr (s2\<lparr>paths := ps\<rparr>)))"
proof -
  let ?v = "\<lambda>key. case es key of None \<Rightarrow> None | Some adj \<Rightarrow> Some False"
  from assms obtain v p where run: "util_rec d es (Util src) (?v, [], s) = Some (Inr (v, p, s'))"
    by (auto simp: determine_all_paths_cases split: option.splits sum.splits)
  from util_rec_effect [OF run] obtain ps where
    ps: "\<And>s2. paths s2 = paths s \<Longrightarrow>
           util_rec d es (Util src) (?v, [], s2) = Some (Inr (v, p, s2\<lparr>paths := ps\<rparr>))"
    by blast
  from ps [of s] run have "paths s' = ps" by auto
  with util_rec_distinct [OF run] have "distinct (paths s) \<longrightarrow> distinct ps" by simp
  with ps show ?thesis by (auto simp: determine_all_paths_cases)
qed

lemma determine_all_paths_no_error:
  assumes "determine_all_paths src d es s = Some r" and "edges_closed es" and "src \<in> dom es"
  shows "\<exists>s'. r = Inr s'"
proof -
  let ?v = "\<lambda>key. case es key of None \<Rightarrow> None | Some adj \<Rightarrow> Some False"
  from assms(1) obtain r1 where run: "util_rec d es (Util src) (?v, [], s) = Some r1"
    by (auto simp: determine_all_paths_cases split: option.splits)
  from util_rec_no_error [OF run] assms(2,3) obtain st' where "r1 = Inr st'"
    by (auto simp: dom_not_visited)
  with run assms(1) show ?thesis
    by (auto simp: determine_all_paths_cases split: prod.splits)
qed

lemma determine_all_paths_returns:
  assumes "finite (dom es)"
  shows "\<exists>r. determine_all_paths src d es s = Some r"
proof -
  let ?v = "\<lambda>key. case es key of None \<Rightarrow> None | Some adj \<Rightarrow> Some False"
  from assms have "finite (dom ?v)" by (simp add: dom_not_visited)
  from util_rec_returns [OF this] obtain r where "util_rec d es (Util src) (?v, [], s) = Some r"
    by blast
  then show ?thesis
    by (auto simp: determine_all_paths_cases split: sum.splits prod.splits)
qed

lemma for_source_effect:
  assumes "for_source srcs t s = Some (Inr s')"
  shows "\<exists>ps. (distinct (paths s) \<longrightarrow> distinct ps) \<and>
           (\<forall>s2. paths s2 = paths s \<and> edges s2 = edges s \<longrightarrow>
              for_source srcs t s2 = Some (Inr (s2\<lparr>paths := ps\<rparr>)))"
  using assms
proof (induction srcs arbitrary: s)
  case Nil
  show ?case by (rule exI [of _ "paths s"]) auto
next
  case (Cons src rest)
  from Cons.prems obtain s1 where
    a: "determine_all_paths src t (edges s) s = Some (Inr s1)"
    and b: "for_source rest t s1 = Some (Inr s')"
    by (auto simp: bind_sum_eq_Inr)
  from determine_all_paths_effect [OF a] obtain ps1 where
    d1: "distinct (paths s) \<longrightarrow> distinct ps1"
    and ps1: "\<And>s2. paths s2 = paths s \<Longrightarrow>
           determine_all_paths src t (edges s) s2 = Some (Inr (s2\<lparr>paths := ps1\<rparr>))"
    by blast
  from ps1 [of s] a have s1: "s1 = s\<lparr>paths := ps1\<rparr>" by simp
  from Cons.IH [OF b] s1 obtain ps where
    d: "distinct ps1 \<longrightarrow> distinct ps"
    and ps: "\<And>s2. paths s2 = ps1 \<Longrightarrow> edges s2 = edges s \<Longrightarrow>
           for_source rest t s2 = Some (Inr (s2\<lparr>paths := ps\<rparr>))"
    by auto
  show ?case
  proof (intro exI [of _ ps] conjI allI impI)
    show "distinct ps" if "distinct (paths s)" using that d1 d by simp
  next
    fix s2 :: ReconstructPaths
    assume c: "paths s2 = paths s \<and> edges s2 = edges s"
    then have "determine_all_paths src t (edges s2) s2 = Some (Inr (s2\<lparr>paths := ps1\<rparr>))"
      using ps1 [of s2] by simp
    moreover have "for_source rest t (s2\<lparr>paths := ps1\<rparr>) = Some (Inr (s2\<lparr>paths := ps\<rparr>))"
      using ps [of "s2\<lparr>paths := ps1\<rparr>"] c by simp
    ultimately show "for_source (src # rest) t s2 = Some (Inr (s2\<lparr>paths := ps\<rparr>))"
      by simp
  qed
qed

lemma for_source_no_error:
  assumes "for_source srcs t s = Some r" and "edges_closed (edges s)"
    and "set srcs \<subseteq> dom (edges s)"
  shows "\<exists>s'. r = Inr s'"
  using assms
proof (induction srcs arbitrary: s)
  case Nil
  then show ?case by auto
next
  case (Cons src rest)
  from Cons.prems(1) obtain r1 where
    a: "determine_all_paths src t (edges s) s = Some r1"
    and b: "(case r1 of Inl e \<Rightarrow> Some (Inl e) | Inr s1 \<Rightarrow> for_source rest t s1) = Some r"
    by (auto simp: bind_eq_Some_conv)
  from determine_all_paths_no_error [OF a] Cons.prems obtain s1 where r1: "r1 = Inr s1"
    by auto
  from determine_all_paths_effect [OF a [unfolded r1]] a r1 have "edges s1 = edges s"
    by auto
  with Cons.IH [of s1 ] b r1 Cons.prems show ?case by auto
qed

lemma for_source_returns:
  assumes "finite (dom (edges s))"
  shows "\<exists>r. for_source srcs t s = Some r"
  using assms
proof (induction srcs arbitrary: s)
  case Nil
  then show ?case by simp
next
  case (Cons src rest)
  from determine_all_paths_returns [OF Cons.prems] obtain r1 where
    a: "determine_all_paths src t (edges s) s = Some r1" by blast
  show ?case
  proof (cases r1)
    case (Inl e)
    with a show ?thesis by simp
  next
    case (Inr s1)
    from determine_all_paths_effect [OF a [unfolded Inr]] a Inr have "edges s1 = edges s"
      by auto
    with Cons.IH [of s1] Cons.prems a Inr show ?thesis by simp
  qed
qed

section \<open>One target\<close>

lemma edges_closed_sink: "edges_closed (add_edge t None Map.empty)"
  by (simp add: edges_closed_def add_edge_def)

lemma expansion_effect:
  assumes "add_edges bd t (s\<lparr>edges := add_edge t None es\<rparr>) = Some s'"
  shows "edges s' t = Some []"
proof (rule ccontr)
  let ?s0 = "s\<lparr>edges := add_edge t None es\<rparr>"
  from assms have run: "add_edges_rec bd (AddEdges t) ?s0 = Some s'"
    by (simp add: add_edges_def)
  have e0: "edges ?s0 t = Some []" by (simp add: add_edge_def)
  assume "edges s' t \<noteq> Some []"
  with e0 have ne: "edges s' t \<noteq> edges ?s0 t" by metis
  from add_edges_rec_changes [OF run] have
    "edges s' t \<noteq> edges ?s0 t \<longrightarrow> (t, t) \<in> (derives bd)\<^sup>+"
    by (auto simp del: ReconstructPaths.simps dest!: spec [of _ t])
  with ne have "(t, t) \<in> (derives bd)\<^sup>+" by (rule rev_mp)
  moreover from add_edges_rec_acc [OF run] have "t \<in> Wellfounded.acc (derives bd)" by simp
  ultimately show False using acc_no_cycle [of t "derives bd"] by simp
qed

lemma apply_to_batch_effect:
  assumes "apply_to_batch bd t s = Some r"
  obtains E ps S new where "distinct ps" and "E t = Some []" and "edges_closed E"
    and "set S \<subseteq> dom E" and "\<forall>x\<in>set S. bd x = None"
    and "bd t = None \<Longrightarrow> E = [t \<mapsto> []] \<and> ps = [] \<and> S = [] \<and>
           new = [(ERROR, t @ '' not found in the Batch dictionary.'')]"
    and "\<And>s2. apply_to_batch bd t s2 =
           Some (Inr (s2\<lparr>edges := E, paths := ps, sources := S,
                  path_dictionary := (path_dictionary s2)(t \<mapsto> ps),
                  logger := logger s2 @ new\<rparr>))"
proof -
  let ?s0 = "s\<lparr>paths := [], sources := [], edges := add_edge t None Map.empty\<rparr>"
  from assms obtain s3 r' where
    a: "add_edges_rec bd (AddEdges t) ?s0 = Some s3"
    and b: "for_source (sources s3) t s3 = Some r'"
    by (auto simp: apply_to_batch_def add_edges_def Let_def bind_eq_Some_conv)
  from add_edges_rec_effect [OF a] obtain E S new where
    eff: "\<And>s2. edges s2 = add_edge t None Map.empty \<Longrightarrow> sources s2 = [] \<Longrightarrow>
            add_edges_rec bd (AddEdges t) s2 = Some (s2\<lparr>edges := E, sources := S, logger := logger s2 @ new\<rparr>)"
    by auto
  from eff [of ?s0] a have s3: "s3 = ?s0\<lparr>edges := E, sources := S, logger := logger s @ new\<rparr>"
    by simp
  from add_edges_rec_closed [OF a] s3 have closed: "edges_closed E" "set S \<subseteq> dom E"
    by (simp_all add: edges_closed_sink dom_add_edge)
  have "add_edges bd t (s\<lparr>paths := [], sources := []\<rparr>\<lparr>edges := add_edge t None Map.empty\<rparr>) = Some s3"
    using a by (simp add: add_edges_def)
  from expansion_effect [OF this] s3 have sink: "E t = Some []" by simp
  from add_edges_rec_sources [OF a] s3 have src: "\<forall>x\<in>set S. bd x = None" by auto
  from for_source_no_error [OF b] closed s3 obtain s4 where r': "r' = Inr s4" by auto
  from for_source_effect [OF b [unfolded r']] s3 obtain ps where
    d: "distinct ps"
    and ps: "\<And>s2. paths s2 = [] \<Longrightarrow> edges s2 = E \<Longrightarrow>
               for_source S t s2 = Some (Inr (s2\<lparr>paths := ps\<rparr>))"
    by auto
  have unknown: "E = [t \<mapsto> []] \<and> ps = [] \<and> S = [] \<and>
      new = [(ERROR, t @ '' not found in the Batch dictionary.'')]" if "bd t = None"
  proof -
    from that a have "s3 = ?s0\<lparr>logger := logger ?s0 @ [(ERROR, t @ '' not found in the Batch dictionary.'')]\<rparr>"
      by (simp add: add_edges_rec_AddEdges)
    then have "edges s3 = [t \<mapsto> []]" "sources s3 = []"
      "logger s3 = logger s @ [(ERROR, t @ '' not found in the Batch dictionary.'')]"
      by (simp_all add: add_edge_def)
    moreover from s3 have "edges s3 = E" "sources s3 = S" "logger s3 = logger s @ new"
      by simp_all
    ultimately have 1: "E = [t \<mapsto> []]" "S = []"
      "new = [(ERROR, t @ '' not found in the Batch dictionary.'')]"
      by simp_all
    have "for_source S t s3 = Some (Inr (s3\<lparr>paths := ps\<rparr>))"
      by (rule ps) (simp_all add: s3)
    with 1 have "s3\<lparr>paths := ps\<rparr> = s3" by simp
    then have "paths (s3\<lparr>paths := ps\<rparr>) = paths s3" by simp
    then have "ps = []" by (simp add: s3)
    with 1 show ?thesis by simp
  qed
  have every: "apply_to_batch bd t s2 =
          Some (Inr (s2\<lparr>edges := E, paths := ps, sources := S,
                 path_dictionary := (path_dictionary s2)(t \<mapsto> ps),
                 logger := logger s2 @ new\<rparr>))" for s2
  proof -
    let ?t0 = "s2\<lparr>paths := [], sources := [], edges := add_edge t None Map.empty\<rparr>"
    have "add_edges bd t ?t0 = Some (?t0\<lparr>edges := E, sources := S, logger := logger s2 @ new\<rparr>)"
      using eff [of ?t0] by (simp add: add_edges_def)
    moreover have "for_source S t (?t0\<lparr>edges := E, sources := S, logger := logger s2 @ new\<rparr>)
        = Some (Inr (?t0\<lparr>edges := E, sources := S, logger := logger s2 @ new\<rparr>\<lparr>paths := ps\<rparr>))"
      by (rule ps) simp_all
    ultimately show ?thesis
      by (simp add: apply_to_batch_def Let_def)
  qed
  show ?thesis
    by (rule that [of ps E S new]) (fact d sink closed src unknown every)+
qed

lemma apply_to_batch_returns:
  assumes "t \<in> Wellfounded.acc (derives bd)"
  shows "\<exists>r. apply_to_batch bd t s = Some r"
proof -
  let ?s0 = "s\<lparr>paths := [], sources := [], edges := add_edge t None Map.empty\<rparr>"
  from acc_add_edges_rec [OF assms] obtain s3 where
    a: "add_edges_rec bd (AddEdges t) ?s0 = Some s3" by blast
  from add_edges_rec_finite [OF a] have "finite (dom (edges s3))"
    by (simp add: dom_add_edge)
  from for_source_returns [OF this] obtain r' where "for_source (sources s3) t s3 = Some r'"
    by blast
  with a show ?thesis
    by (cases r') (simp_all add: apply_to_batch_def add_edges_def Let_def)
qed

section \<open>The loop over the targets\<close>

lemma apply_to_batch_unknown:
  assumes "bd t = None"
  shows "apply_to_batch bd t s =
           Some (Inr (s\<lparr>edges := [t \<mapsto> []], paths := [], sources := [],
                  path_dictionary := (path_dictionary s)(t \<mapsto> []),
                  logger := logger s @ [(ERROR, t @ '' not found in the Batch dictionary.'')]\<rparr>))"
  using assms
  by (simp add: apply_to_batch_def add_edges_def add_edges_rec_AddEdges add_edge_def Let_def)

lemma for_to_batch_append:
  "for_to_batch bd (xs @ ys) s =
     Option.bind (for_to_batch bd xs s)
       (\<lambda>r. case r of Inl e \<Rightarrow> Some (Inl e) | Inr s1 \<Rightarrow> for_to_batch bd ys s1)"
proof (induction xs arbitrary: s)
  case Nil
  show ?case by simp
next
  case (Cons x xs)
  show ?case
  proof (cases "apply_to_batch bd x s")
    case None
    then show ?thesis by simp
  next
    case (Some r)
    then show ?thesis by (cases r) (simp_all add: Cons)
  qed
qed

lemma for_to_batch_effect:
  assumes "for_to_batch bd ts s = Some r"
  shows "\<exists>s' new. r = Inr s' \<and> logger s' = logger s @ new \<and>
           (\<forall>x. x \<notin> set ts \<longrightarrow> path_dictionary s' x = path_dictionary s x) \<and>
           (\<forall>t\<in>set ts. \<exists>ps. path_dictionary s' t = Some ps \<and> distinct ps \<and>
              (bd t = None \<longrightarrow> ps = []) \<and>
              (\<forall>s0. \<exists>s1. apply_to_batch bd t s0 = Some (Inr s1) \<and> paths s1 = ps \<and>
                 path_dictionary s1 t = Some ps)) \<and>
           (\<forall>s2. \<exists>s2'. for_to_batch bd ts s2 = Some (Inr s2') \<and> logger s2' = logger s2 @ new \<and>
              (\<forall>x. path_dictionary s2' x =
                     (if x \<in> set ts then path_dictionary s' x else path_dictionary s2 x)))"
  using assms
proof (induction ts arbitrary: s r)
  case Nil
  then show ?case by auto
next
  case (Cons t rest)
  from Cons.prems obtain r1 where
    a: "apply_to_batch bd t s = Some r1"
    and b: "(case r1 of Inl e \<Rightarrow> Some (Inl e) | Inr s1 \<Rightarrow> for_to_batch bd rest s1) = Some r"
    by (auto simp: bind_eq_Some_conv)
  obtain E ps S new1 where
    d: "distinct ps"
    and unk: "bd t = None \<Longrightarrow> E = [t \<mapsto> []] \<and> ps = [] \<and> S = [] \<and>
           new1 = [(ERROR, t @ '' not found in the Batch dictionary.'')]"
    and eff: "\<And>s2. apply_to_batch bd t s2 =
              Some (Inr (s2\<lparr>edges := E, paths := ps, sources := S,
                     path_dictionary := (path_dictionary s2)(t \<mapsto> ps),
                     logger := logger s2 @ new1\<rparr>))"
  proof (rule apply_to_batch_effect [OF a])
    fix E ps S new
    assume "distinct ps"
      and "bd t = None \<Longrightarrow> E = [t \<mapsto> []] \<and> ps = [] \<and> S = [] \<and>
             new = [(ERROR, t @ '' not found in the Batch dictionary.'')]"
      and "\<And>s2. apply_to_batch bd t s2 =
              Some (Inr (s2\<lparr>edges := E, paths := ps, sources := S,
                     path_dictionary := (path_dictionary s2)(t \<mapsto> ps),
                     logger := logger s2 @ new\<rparr>))"
    then show thesis by (rule that [of ps E S new])
  qed
  define step where "step = (\<lambda>s2 :: ReconstructPaths. s2\<lparr>edges := E, paths := ps, sources := S,
                     path_dictionary := (path_dictionary s2)(t \<mapsto> ps),
                     logger := logger s2 @ new1\<rparr>)"
  have step_pd: "path_dictionary (step s2) = (path_dictionary s2)(t \<mapsto> ps)"
    and step_lg: "logger (step s2) = logger s2 @ new1"
    and step_paths: "paths (step s2) = ps" for s2
    by (simp_all add: step_def)
  have eff': "apply_to_batch bd t s2 = Some (Inr (step s2))" for s2
    by (simp add: eff step_def)
  from a eff' [of s] have "r1 = Inr (step s)" by simp
  with b have run: "for_to_batch bd rest (step s) = Some r" by simp
  from Cons.IH [OF run] obtain s' new2 where
    r: "r = Inr s'"
    and lg: "logger s' = logger (step s) @ new2"
    and frame: "\<And>x. x \<notin> set rest \<Longrightarrow> path_dictionary s' x = path_dictionary (step s) x"
    and each: "\<forall>t\<in>set rest. \<exists>ps. path_dictionary s' t = Some ps \<and> distinct ps \<and>
              (bd t = None \<longrightarrow> ps = []) \<and>
              (\<forall>s0. \<exists>s1. apply_to_batch bd t s0 = Some (Inr s1) \<and> paths s1 = ps \<and>
                 path_dictionary s1 t = Some ps)"
    and any: "\<And>s2. \<exists>s2'. for_to_batch bd rest s2 = Some (Inr s2') \<and> logger s2' = logger s2 @ new2 \<and>
              (\<forall>x. path_dictionary s2' x =
                     (if x \<in> set rest then path_dictionary s' x else path_dictionary s2 x))"
    by blast
  have 1: "logger s' = logger s @ (new1 @ new2)" by (simp add: lg step_lg)
  have 2: "\<forall>x. x \<notin> set (t # rest) \<longrightarrow> path_dictionary s' x = path_dictionary s x"
    by (simp add: frame step_pd)
  have 3: "\<forall>u\<in>set (t # rest). \<exists>ps. path_dictionary s' u = Some ps \<and> distinct ps \<and>
              (bd u = None \<longrightarrow> ps = []) \<and>
              (\<forall>s0. \<exists>s1. apply_to_batch bd u s0 = Some (Inr s1) \<and> paths s1 = ps \<and>
                 path_dictionary s1 u = Some ps)"
  proof
    fix u assume u: "u \<in> set (t # rest)"
    show "\<exists>ps. path_dictionary s' u = Some ps \<and> distinct ps \<and>
              (bd u = None \<longrightarrow> ps = []) \<and>
              (\<forall>s0. \<exists>s1. apply_to_batch bd u s0 = Some (Inr s1) \<and> paths s1 = ps \<and>
                 path_dictionary s1 u = Some ps)"
    proof (cases "u \<in> set rest")
      case True
      with each show ?thesis by blast
    next
      case False
      with u have ut: "u = t" by simp
      with False have "path_dictionary s' u = Some ps" by (simp add: frame step_pd)
      moreover have "\<forall>s0. \<exists>s1. apply_to_batch bd u s0 = Some (Inr s1) \<and> paths s1 = ps \<and>
                 path_dictionary s1 u = Some ps"
        using eff' step_paths step_pd ut by simp
      moreover from unk ut have "bd u = None \<longrightarrow> ps = []" by simp
      ultimately show ?thesis using d by (intro exI [of _ ps] conjI)
    qed
  qed
  have 4: "\<forall>s2. \<exists>s2'. for_to_batch bd (t # rest) s2 = Some (Inr s2') \<and>
              logger s2' = logger s2 @ (new1 @ new2) \<and>
              (\<forall>x. path_dictionary s2' x =
                     (if x \<in> set (t # rest) then path_dictionary s' x else path_dictionary s2 x))"
  proof
    fix s2
    from any [of "step s2"] obtain s2' where
      s2': "for_to_batch bd rest (step s2) = Some (Inr s2')"
      "logger s2' = logger (step s2) @ new2"
      "\<And>x. path_dictionary s2' x =
                     (if x \<in> set rest then path_dictionary s' x else path_dictionary (step s2) x)"
      by blast
    have "for_to_batch bd (t # rest) s2 = Some (Inr s2')"
      by (simp add: eff' s2'(1))
    moreover have "logger s2' = logger s2 @ (new1 @ new2)"
      by (simp add: s2'(2) step_lg)
    moreover have "path_dictionary s2' x =
        (if x \<in> set (t # rest) then path_dictionary s' x else path_dictionary s2 x)" for x
      by (simp add: s2'(3) step_pd frame)
    ultimately show "\<exists>s2'. for_to_batch bd (t # rest) s2 = Some (Inr s2') \<and>
              logger s2' = logger s2 @ (new1 @ new2) \<and>
              (\<forall>x. path_dictionary s2' x =
                     (if x \<in> set (t # rest) then path_dictionary s' x else path_dictionary s2 x))"
      by blast
  qed
  show ?case
    by (rule exI [of _ s'], rule exI [of _ "new1 @ new2"]) (intro conjI r 1 2 3 4)
qed

lemma for_to_batch_returns:
  assumes "\<forall>t\<in>set ts. t \<in> Wellfounded.acc (derives bd)"
  shows "\<exists>s'. for_to_batch bd ts s = Some (Inr s')"
  using assms
proof (induction ts arbitrary: s)
  case Nil
  show ?case by simp
next
  case (Cons t rest)
  then have "t \<in> Wellfounded.acc (derives bd)" by simp
  from apply_to_batch_returns [OF this] obtain r where a: "apply_to_batch bd t s = Some r"
    by blast
  obtain s1 where "apply_to_batch bd t s = Some (Inr s1)"
  proof (rule apply_to_batch_effect [OF a])
    fix E ps S new
    assume "\<And>s2. apply_to_batch bd t s2 =
              Some (Inr (s2\<lparr>edges := E, paths := ps, sources := S,
                     path_dictionary := (path_dictionary s2)(t \<mapsto> ps),
                     logger := logger s2 @ new\<rparr>))"
    then show thesis by (rule that)
  qed
  with Cons.IH [of s1] Cons.prems show ?case by simp
qed

lemma ReconstructPaths_apply_Inr:
  "ReconstructPaths_apply bd ts s = Some (Inr s') \<longleftrightarrow>
     (\<exists>s1. for_to_batch bd ts s = Some (Inr s1) \<and>
        s' = s1\<lparr>logger := logger s1 @ [(INFO, ''Finished reconstructing paths.'')]\<rparr>)"
  by (auto simp: ReconstructPaths_apply_def bind_sum_eq_Inr)

lemma ReconstructPaths_apply_Some:
  assumes "ReconstructPaths_apply bd ts s = Some r"
  shows "\<exists>s'. r = Inr s'"
proof -
  from assms obtain r1 where a: "for_to_batch bd ts s = Some r1"
    and b: "(case r1 of Inl e \<Rightarrow> Some (Inl e)
             | Inr s1 \<Rightarrow> Some (Inr (s1\<lparr>logger := logger s1 @ [(INFO, ''Finished reconstructing paths.'')]\<rparr>))) = Some r"
    by (auto simp: ReconstructPaths_apply_def bind_eq_Some_conv)
  from for_to_batch_effect [OF a] obtain s1 where "r1 = Inr s1" by blast
  with b show ?thesis by auto
qed

section \<open>The diamond, evaluated\<close>

lemma diamond_dict_eq:
  "diamond_dict = [''B'' \<mapsto> [''A''], ''C'' \<mapsto> [''A''], ''D'' \<mapsto> [''B'', ''C'']]"
  by (simp add: diamond_dict_def diamond_def BatchHistory_apply_def update_to_batch_dict_def Let_def)

lemma diamond_expansion:
  "add_edges diamond_dict ''D'' diamond_start =
     Some (diamond_result\<lparr>paths := [], path_dictionary := Map.empty,
             logger := [(INFO, ''Reconstructing Paths'')]\<rparr>)"
  by (simp add: diamond_dict_eq diamond_start_def diamond_result_def ReconstructPaths_init_def
      add_edges_def add_edge_def add_edges_rec_AddEdges add_edges_rec_Cons add_edges_rec_Nil)

lemma diamond_apply:
  "ReconstructPaths_apply diamond_dict [''D''] (ReconstructPaths_init []) = Some (Inr diamond_result)"
  by (simp add: diamond_dict_eq diamond_result_def eval_defs)

lemma finite_dom_diamond: "finite (dom diamond_dict)"
  by (simp add: diamond_dict_eq)

lemma acyclic_diamond: "acyclic (derives diamond_dict)"
proof -
  let ?rank = "\<lambda>x. if x = ''A'' then 0 else if x = ''D'' then 2 else (1::nat)"
  have "derives diamond_dict \<subseteq> measure ?rank"
    by (auto simp: derives_iff diamond_dict_eq split: if_splits)
  then have "wf (derives diamond_dict)" by (rule wf_subset [OF wf_measure])
  then show ?thesis by (rule wf_acyclic)
qed

lemma diamond_apply_both:
  "ReconstructPaths_apply diamond_dict [''B'', ''D''] (ReconstructPaths_init []) = Some (Inr diamond_both)"
  by (simp add: diamond_dict_eq diamond_both_def diamond_result_def eval_defs)

lemma diamond_apply_second:
  "ReconstructPaths_apply diamond_dict [''B''] diamond_result = Some (Inr diamond_second)"
  by (simp add: diamond_dict_eq diamond_second_def diamond_result_def eval_defs)

section \<open>Cycles\<close>

text \<open>
  A cycle that the backward walk from the target reaches keeps \<open>add_edges\<close>, and so
  \<open>apply\<close>, from returning. A cycle that no target reaches does not.
\<close>

lemma cycle_never_returns:
  assumes "(x, t) \<in> (derives bd)\<^sup>*" and "(x, x) \<in> (derives bd)\<^sup>+"
  shows "add_edges bd t s = None"
proof (cases "add_edges bd t s")
  case None
  then show ?thesis .
next
  case (Some s')
  then have "add_edges_rec bd (AddEdges t) s = Some s'" by (simp only: add_edges_def)
  from add_edges_rec_acc [OF this] have "t \<in> Wellfounded.acc (derives bd)" by simp
  then have "x \<in> Wellfounded.acc (derives bd)" using assms(1) by (rule acc_downwards)
  then have "(x, x) \<notin> (derives bd)\<^sup>+" by (rule acc_no_cycle)
  with assms(2) show ?thesis by (rule notE [rotated])
qed

lemma cycle_apply_never_returns:
  assumes "(x, t) \<in> (derives bd)\<^sup>*" and "(x, x) \<in> (derives bd)\<^sup>+"
  shows "ReconstructPaths_apply bd (t # ts) s = None"
proof -
  have "add_edges bd t (s\<lparr>edges := Map.empty, paths := [], sources := []\<rparr>
          \<lparr>edges := add_edge t None (edges (s\<lparr>edges := Map.empty, paths := [], sources := []\<rparr>))\<rparr>) = None"
    using assms by (rule cycle_never_returns)
  then have "apply_to_batch bd t s = None"
    by (simp only: apply_to_batch_def Let_def Option.bind.simps)
  then show ?thesis
    by (simp only: ReconstructPaths_apply_def for_to_batch.simps Option.bind.simps)
qed

section \<open>Sources and branches\<close>

lemma follow_Nil [simp]: "follow bd [] p = None"
  by (induction bd "[] :: batch_id list" p rule: follow.induct) simp_all

lemma follow_Cons_Suc [simp]: "follow bd (f # rest) (Suc i # js) = follow bd rest (i # js)"
  by (cases js) simp_all

lemma follow_Cons_0:
  "follow bd (f # rest) (0 # js) =
     (if js = [] then Some f else case bd f of None \<Rightarrow> None | Some l' \<Rightarrow> follow bd l' js)"
  by (cases js) auto

lemma branches_Nil [simp]: "branches bd [] x = {}"
  by (simp add: branches_def)

lemma branches_Cons:
  "branches bd (f # rest) x =
     (if f = x then {[0]} else {}) \<union>
     (case bd f of None \<Rightarrow> {} | Some l' \<Rightarrow> (#) 0 ` branches bd l' x) \<union>
     later ` branches bd rest x"
proof (rule set_eqI)
  fix p
  show "p \<in> branches bd (f # rest) x \<longleftrightarrow>
        p \<in> (if f = x then {[0]} else {}) \<union>
          (case bd f of None \<Rightarrow> {} | Some l' \<Rightarrow> (#) 0 ` branches bd l' x) \<union>
          later ` branches bd rest x"
  proof (cases p)
    case Nil
    then show ?thesis
      by (auto simp: branches_def later_def split: option.splits list.splits)
  next
    case (Cons i js)
    show ?thesis
    proof (cases i)
      case 0
      have L: "p \<notin> later ` branches bd rest x"
      proof
        assume "p \<in> later ` branches bd rest x"
        then obtain q where q: "q \<in> branches bd rest x" "p = later q" by blast
        then have "q \<noteq> []" by (auto simp: branches_def)
        with q Cons 0 show False by (cases q) (simp_all add: later_def)
      qed
      have M: "p \<in> (#) 0 ` S \<longleftrightarrow> js \<in> S" for S
        using Cons 0 by auto
      have N: "p \<in> {[0]} \<longleftrightarrow> js = []" using Cons 0 by simp
      have E: "[] \<notin> branches bd l' x" for l' by (simp add: branches_def)
      have F: "p \<in> branches bd (f # rest) x \<longleftrightarrow>
          (if js = [] then f = x
           else case bd f of None \<Rightarrow> False | Some l' \<Rightarrow> js \<in> branches bd l' x)"
        using Cons 0 by (simp add: branches_def follow_Cons_0 split: option.splits)
      show ?thesis
      proof (cases "js = []")
        case True
        with F L M N E show ?thesis by (simp split: option.splits)
      next
        case False
        with F L M N show ?thesis by (simp split: option.splits)
      qed
    next
      case (Suc k)
      have "p \<in> later ` branches bd rest x \<longleftrightarrow> follow bd rest (k # js) = Some x"
      proof
        assume "p \<in> later ` branches bd rest x"
        then obtain q where q: "q \<in> branches bd rest x" "p = later q" by blast
        with Cons Suc have "q = k # js" by (cases q) (simp_all add: later_def)
        with q show "follow bd rest (k # js) = Some x" by (simp add: branches_def)
      next
        assume "follow bd rest (k # js) = Some x"
        then have "k # js \<in> branches bd rest x" by (simp add: branches_def)
        moreover have "p = later (k # js)" by (simp add: Cons Suc later_def)
        ultimately show "p \<in> later ` branches bd rest x" by blast
      qed
      with Cons Suc show ?thesis
        by (auto simp: branches_def split: option.splits)
    qed
  qed
qed

lemma inj_later: "inj later"
proof (rule injI)
  fix p q assume "later p = later q"
  then show "p = q" by (cases p; cases q) (simp_all add: later_def)
qed

lemma card_branches_Cons:
  assumes "finite (branches bd rest x)"
    and "\<And>l'. bd f = Some l' \<Longrightarrow> finite (branches bd l' x)"
  shows "finite (branches bd (f # rest) x) \<and>
         card (branches bd (f # rest) x) =
           (if f = x then 1 else 0) +
           (case bd f of None \<Rightarrow> 0 | Some l' \<Rightarrow> card (branches bd l' x)) +
           card (branches bd rest x)"
proof -
  let ?A = "if f = x then {[0::nat]} else {}"
  let ?B = "case bd f of None \<Rightarrow> {} | Some l' \<Rightarrow> (#) 0 ` branches bd l' x"
  let ?C = "later ` branches bd rest x"
  have fA: "finite ?A" by simp
  have fB: "finite ?B" using assms(2) by (simp split: option.splits)
  have fC: "finite ?C" using assms(1) by simp
  have cA: "card ?A = (if f = x then 1 else 0)" by simp
  have cB: "card ?B = (case bd f of None \<Rightarrow> 0 | Some l' \<Rightarrow> card (branches bd l' x))"
    by (simp add: card_image split: option.splits)
  have cC: "card ?C = card (branches bd rest x)"
    by (rule card_image) (rule inj_on_subset [OF inj_later], simp)
  have "[] \<notin> branches bd l' x" for l' by (simp add: branches_def)
  then have dAB: "?A \<inter> ?B = {}" by (auto split: option.splits if_splits)
  have dC: "(?A \<union> ?B) \<inter> ?C = {}"
    by (auto simp: later_def split: option.splits if_splits list.splits)
  have "card (?A \<union> ?B \<union> ?C) = card (?A \<union> ?B) + card ?C"
    using fA fB fC dC by (intro card_Un_disjoint) simp_all
  also have "card (?A \<union> ?B) = card ?A + card ?B"
    using fA fB dAB by (rule card_Un_disjoint)
  finally have "card (?A \<union> ?B \<union> ?C) =
      (if f = x then 1 else 0) +
      (case bd f of None \<Rightarrow> 0 | Some l' \<Rightarrow> card (branches bd l' x)) +
      card (branches bd rest x)"
    by (simp only: cA cB cC)
  moreover have "finite (?A \<union> ?B \<union> ?C)" using fA fB fC by simp
  ultimately show ?thesis by (simp only: branches_Cons)
qed

lemma add_edges_rec_count:
  assumes "add_edges_rec bd c s = Some s'"
  shows "\<exists>new. sources s' = sources s @ new \<and>
           (\<forall>x. bd x = None \<longrightarrow>
              (case c of
                 AddEdges t \<Rightarrow> finite (branches_of bd t x) \<and>
                   count_list new x = card (branches_of bd t x)
               | ForFrom t l \<Rightarrow> finite (branches bd l x) \<and>
                   count_list new x = card (branches bd l x)))"
  using assms
proof (induction rule: add_edges_rec_induct)
  case (NotFound t s)
  then show ?case by (simp add: branches_of_def)
next
  case (Found t l s s')
  then show ?case by (simp add: branches_of_def)
next
  case (Done t s)
  show ?case by simp
next
  case (Rec t f rest s s1 s')
  from Rec.hyps(1) obtain l' where l': "bd f = Some l'" by auto
  from Rec.IH(1) obtain new1 where
    n1: "sources s1 = sources s @ new1"
    and c1: "\<And>x. bd x = None \<Longrightarrow>
               finite (branches bd l' x) \<and> count_list new1 x = card (branches bd l' x)"
    by (auto simp: branches_of_def l')
  from Rec.IH(2) obtain new2 where
    n2: "sources s' = sources s1 @ new2"
    and c2: "\<And>x. bd x = None \<Longrightarrow>
               finite (branches bd rest x) \<and> count_list new2 x = card (branches bd rest x)"
    by auto
  show ?case
  proof (intro exI [of _ "new1 @ new2"] conjI allI impI)
    show "sources s' = sources s @ new1 @ new2" by (simp add: n1 n2)
  next
    fix x assume x: "bd x = None"
    with l' have ne: "f \<noteq> x" by auto
    from card_branches_Cons [of bd rest x f] c1 [OF x] c2 [OF x] l' ne
    have "finite (branches bd (f # rest) x) \<and>
          card (branches bd (f # rest) x) = card (branches bd l' x) + card (branches bd rest x)"
      by simp
    with c1 [OF x] c2 [OF x]
    show "case ForFrom t (f # rest) of
            AddEdges t \<Rightarrow> finite (branches_of bd t x) \<and>
              count_list (new1 @ new2) x = card (branches_of bd t x)
          | ForFrom t l \<Rightarrow> finite (branches bd l x) \<and>
              count_list (new1 @ new2) x = card (branches bd l x)"
      by simp
  qed
next
  case (Src t f rest s s')
  from Src.IH obtain new2 where
    n2: "sources s' = (sources s @ [f]) @ new2"
    and c2: "\<And>x. bd x = None \<Longrightarrow>
               finite (branches bd rest x) \<and> count_list new2 x = card (branches bd rest x)"
    by auto
  show ?case
  proof (intro exI [of _ "f # new2"] conjI allI impI)
    show "sources s' = sources s @ f # new2" by (simp add: n2)
  next
    fix x assume x: "bd x = None"
    from card_branches_Cons [of bd rest x f] c2 [OF x] Src.hyps(1)
    have "finite (branches bd (f # rest) x) \<and>
          card (branches bd (f # rest) x) = (if f = x then 1 else 0) + card (branches bd rest x)"
      by simp
    with c2 [OF x]
    show "case ForFrom t (f # rest) of
            AddEdges t \<Rightarrow> finite (branches_of bd t x) \<and>
              count_list (f # new2) x = card (branches_of bd t x)
          | ForFrom t l \<Rightarrow> finite (branches bd l x) \<and>
              count_list (f # new2) x = card (branches bd l x)"
      by simp
  qed
qed

lemma diamond_no_ancestry: "diamond_dict ''A'' = None"
  by (simp add: diamond_dict_eq)

section \<open>The properties\<close>

text \<open>
  Claim C2, as stated: a batch with no recorded ancestry is recorded in the sources at
  most once. It fails on the diamond: \<open>sources\<close> is a list that \<open>add_edges\<close> appends to, and
  \<open>A\<close> is reached through \<open>B\<close> and through \<open>C\<close>, so the expansion of \<open>D\<close> records it twice.
\<close>

theorem source_recorded_twice:
  "map_option sources (add_edges diamond_dict ''D'' diamond_start) = Some [''A'', ''A''] \<and>
   \<not> distinct [''A'', ''A'']"
  by (simp add: diamond_expansion diamond_result_def)

text \<open>
  Claim C2, amended. During the expansion for any target, \<open>add_edges\<close> only appends to
  the sources; every batch it appends has no recorded ancestry, and a batch with no
  recorded ancestry is appended exactly once for every branch of the backward walk that
  leads from the target to it. So it is recorded once when one branch reaches it and
  several times when several do: the sources are a list, not a set.
\<close>

theorem sources_once_per_branch:
  assumes "add_edges bd t s = Some s'"
  shows "\<exists>new. sources s' = sources s @ new \<and> (\<forall>x\<in>set new. bd x = None) \<and>
           (\<forall>x. bd x = None \<longrightarrow>
              finite (branches_of bd t x) \<and> count_list new x = card (branches_of bd t x))"
proof -
  from assms have run: "add_edges_rec bd (AddEdges t) s = Some s'" by (simp only: add_edges_def)
  from add_edges_rec_sources [OF run] obtain new where
    new: "sources s' = sources s @ new" and none: "\<forall>x\<in>set new. bd x = None"
    by blast
  from add_edges_rec_count [OF run] obtain new' where
    new': "sources s' = sources s @ new'"
    and count: "\<forall>x. bd x = None \<longrightarrow>
              finite (branches_of bd t x) \<and> count_list new' x = card (branches_of bd t x)"
    by auto
  from new new' have "new' = new" by simp
  with new none count show ?thesis by blast
qed

theorem sources_once_per_branch_witness:
  "add_edges diamond_dict ''D'' diamond_start =
     Some (diamond_result\<lparr>paths := [], path_dictionary := Map.empty,
             logger := [(INFO, ''Reconstructing Paths'')]\<rparr>) \<and>
   diamond_dict ''A'' = None \<and>
   count_list [''A'', ''A''] ''A'' = card (branches_of diamond_dict ''D'' ''A'') \<and>
   card (branches_of diamond_dict ''D'' ''A'') = 2"
proof -
  from sources_once_per_branch [OF diamond_expansion] obtain new where
    new: "sources (diamond_result\<lparr>paths := [], path_dictionary := Map.empty,
             logger := [(INFO, ''Reconstructing Paths'')]\<rparr>) = sources diamond_start @ new"
    and count: "\<forall>x. diamond_dict x = None \<longrightarrow>
              finite (branches_of diamond_dict ''D'' x) \<and>
              count_list new x = card (branches_of diamond_dict ''D'' x)"
    by blast
  from new have "new = [''A'', ''A'']"
    by (simp add: diamond_result_def diamond_start_def ReconstructPaths_init_def)
  with count diamond_no_ancestry
  have c: "count_list [''A'', ''A''] ''A'' = card (branches_of diamond_dict ''D'' ''A'')"
    by blast
  then have "card (branches_of diamond_dict ''D'' ''A'') = 2" by simp
  with c diamond_expansion diamond_no_ancestry show ?thesis by (intro conjI)
qed

text \<open>
  Claim C3. For every finite lineage map whose backward derivation relation is acyclic
  and every target, the graph expansion started as \<open>apply\<close> starts it returns, the path
  enumeration on the graph it built returns from every source and on every instance, and
  \<open>apply\<close> returns for every list of targets. (The lemmas of the section on cycles give
  the other direction: the expansion does not return when the walk reaches a cycle.)
\<close>

theorem acyclic_terminates:
  assumes "finite (dom bd)" and "acyclic (derives bd)"
  shows "\<exists>s1. add_edges bd t
                (s\<lparr>edges := Map.empty, paths := [], sources := []\<rparr>\<lparr>edges := add_edge t None Map.empty\<rparr>)
                = Some s1 \<and>
           (\<forall>src s2. \<exists>r. determine_all_paths src t (edges s1) s2 = Some r) \<and>
           (\<exists>s'. ReconstructPaths_apply bd ts s = Some (Inr s'))"
proof -
  let ?s0 = "s\<lparr>edges := Map.empty, paths := [], sources := []\<rparr>\<lparr>edges := add_edge t None Map.empty\<rparr>"
  have acc: "u \<in> Wellfounded.acc (derives bd)" for u
    using assms by (rule acyclic_all_acc)
  from acc_add_edges_rec [OF acc] obtain s1 where
    s1: "add_edges_rec bd (AddEdges t) ?s0 = Some s1" by blast
  from add_edges_rec_finite [OF s1] have "finite (dom (edges s1))"
    by (simp add: dom_add_edge)
  then have dfs: "\<forall>src s2. \<exists>r. determine_all_paths src t (edges s1) s2 = Some r"
    by (simp add: determine_all_paths_returns)
  from acc have "\<forall>u\<in>set ts. u \<in> Wellfounded.acc (derives bd)" by simp
  from for_to_batch_returns [OF this] obtain s2 where "for_to_batch bd ts s = Some (Inr s2)"
    by blast
  then have "\<exists>s'. ReconstructPaths_apply bd ts s = Some (Inr s')"
    by (simp add: ReconstructPaths_apply_Inr)
  with s1 dfs show ?thesis by (simp add: add_edges_def)
qed

theorem acyclic_terminates_witness:
  "finite (dom diamond_dict) \<and> acyclic (derives diamond_dict) \<and>
   (\<exists>s1. add_edges diamond_dict ''D'' diamond_start = Some s1 \<and>
      (\<forall>src s2. \<exists>r. determine_all_paths src ''D'' (edges s1) s2 = Some r) \<and>
      (\<exists>s'. ReconstructPaths_apply diamond_dict [''D''] (ReconstructPaths_init []) = Some (Inr s')))"
  using acyclic_terminates [OF finite_dom_diamond acyclic_diamond, of "''D''" "ReconstructPaths_init []" "[''D'']"]
  by (simp add: finite_dom_diamond acyclic_diamond diamond_start_def)

text \<open>
  Claim C4. For a target that is absent from the lineage map, the loop body of \<open>apply\<close>
  returns without an exception: the graph holds only the sink, the sources and the path
  list are empty, the dictionary maps the target to the empty list and the error is
  logged. The other targets are unaffected: if \<open>apply\<close> returns on a list of targets,
  it returns on the list with the absent target inserted anywhere, with the same
  dictionary but for the empty list of the absent target, and the error is in the log.
\<close>

theorem unknown_target:
  assumes "bd t = None"
  shows "apply_to_batch bd t s =
           Some (Inr (s\<lparr>edges := [t \<mapsto> []], paths := [], sources := [],
                  path_dictionary := (path_dictionary s)(t \<mapsto> []),
                  logger := logger s @ [(ERROR, t @ '' not found in the Batch dictionary.'')]\<rparr>)) \<and>
         (ReconstructPaths_apply bd (ts1 @ ts2) s = Some (Inr s'') \<longrightarrow>
            (\<exists>s'. ReconstructPaths_apply bd (ts1 @ t # ts2) s = Some (Inr s') \<and>
               path_dictionary s' = (path_dictionary s'')(t \<mapsto> []) \<and>
               (ERROR, t @ '' not found in the Batch dictionary.'') \<in> set (logger s')))"
proof (intro conjI impI)
  show "apply_to_batch bd t s =
           Some (Inr (s\<lparr>edges := [t \<mapsto> []], paths := [], sources := [],
                  path_dictionary := (path_dictionary s)(t \<mapsto> []),
                  logger := logger s @ [(ERROR, t @ '' not found in the Batch dictionary.'')]\<rparr>))"
    using assms by (rule apply_to_batch_unknown)
next
  let ?err = "(ERROR, t @ '' not found in the Batch dictionary.'')"
  assume "ReconstructPaths_apply bd (ts1 @ ts2) s = Some (Inr s'')"
  then obtain sz where z: "for_to_batch bd (ts1 @ ts2) s = Some (Inr sz)"
    and pdz: "path_dictionary s'' = path_dictionary sz"
    by (auto simp: ReconstructPaths_apply_Inr)
  then obtain sa where a: "for_to_batch bd ts1 s = Some (Inr sa)"
    and b: "for_to_batch bd ts2 sa = Some (Inr sz)"
    by (auto simp: for_to_batch_append bind_sum_eq_Inr)
  define sb where "sb = sa\<lparr>edges := [t \<mapsto> []], paths := [], sources := [],
                  path_dictionary := (path_dictionary sa)(t \<mapsto> []),
                  logger := logger sa @ [?err]\<rparr>"
  have t: "apply_to_batch bd t sa = Some (Inr sb)"
    unfolding sb_def using assms by (rule apply_to_batch_unknown)
  from for_to_batch_effect [OF b] obtain new where
    frame: "\<And>x. x \<notin> set ts2 \<Longrightarrow> path_dictionary sz x = path_dictionary sa x"
    and each: "\<forall>u\<in>set ts2. \<exists>ps. path_dictionary sz u = Some ps \<and> distinct ps \<and>
              (bd u = None \<longrightarrow> ps = []) \<and>
              (\<forall>s0. \<exists>s1. apply_to_batch bd u s0 = Some (Inr s1) \<and> paths s1 = ps \<and>
                 path_dictionary s1 u = Some ps)"
    and any: "\<And>s2. \<exists>s2'. for_to_batch bd ts2 s2 = Some (Inr s2') \<and> logger s2' = logger s2 @ new \<and>
              (\<forall>x. path_dictionary s2' x =
                     (if x \<in> set ts2 then path_dictionary sz x else path_dictionary s2 x))"
    by auto
  from any [of sb] obtain sc where
    c: "for_to_batch bd ts2 sb = Some (Inr sc)"
    and lg: "logger sc = logger sb @ new"
    and pd: "\<And>x. path_dictionary sc x =
                     (if x \<in> set ts2 then path_dictionary sz x else path_dictionary sb x)"
    by blast
  have "path_dictionary sc x = ((path_dictionary sz)(t \<mapsto> [])) x" for x
  proof (cases "x \<in> set ts2")
    case True
    with each assms have "x = t \<Longrightarrow> path_dictionary sz x = Some []" by auto
    with True show ?thesis by (simp add: pd)
  next
    case False
    then show ?thesis by (simp add: pd frame sb_def)
  qed
  then have 1: "path_dictionary sc = (path_dictionary s'')(t \<mapsto> [])"
    by (auto simp: pdz)
  have 2: "?err \<in> set (logger sc)" by (simp add: lg sb_def)
  have "for_to_batch bd (ts1 @ t # ts2) s = Some (Inr sc)"
    by (simp add: for_to_batch_append a t c)
  with 1 2 show "\<exists>s'. ReconstructPaths_apply bd (ts1 @ t # ts2) s = Some (Inr s') \<and>
               path_dictionary s' = (path_dictionary s'')(t \<mapsto> []) \<and>
               ?err \<in> set (logger s')"
    by (simp add: ReconstructPaths_apply_Inr)
qed

theorem unknown_target_witness:
  "diamond_dict ''X'' = None \<and>
   apply_to_batch diamond_dict ''X'' (ReconstructPaths_init []) =
     Some (Inr \<lparr>edges = [''X'' \<mapsto> []], paths = [], sources = [],
             path_dictionary = [''X'' \<mapsto> []],
             logger = [(INFO, ''Reconstructing Paths''),
                       (ERROR, ''X not found in the Batch dictionary.'')]\<rparr>) \<and>
   ReconstructPaths_apply diamond_dict ([] @ [''D'']) (ReconstructPaths_init []) = Some (Inr diamond_result) \<and>
   (\<exists>s'. ReconstructPaths_apply diamond_dict ([] @ ''X'' # [''D'']) (ReconstructPaths_init []) = Some (Inr s') \<and>
      path_dictionary s' = (path_dictionary diamond_result)(''X'' \<mapsto> []) \<and>
      (ERROR, ''X not found in the Batch dictionary.'') \<in> set (logger s'))"
  using unknown_target [where bd = diamond_dict and t = "''X''" and ?ts1.0 = "[]"
      and ?ts2.0 = "[''D'']" and s = "ReconstructPaths_init []" and s'' = diamond_result]
  by (simp add: diamond_apply) (simp add: diamond_dict_eq ReconstructPaths_init_def)

text \<open>
  Claim C5. For every lineage map, whenever \<open>apply\<close> returns, the list of paths it holds
  for each target has no two equal paths. The helper appends a completed path (a copy:
  lists are values here) only if an equal path is not already in \<open>paths\<close>.
\<close>

theorem no_duplicate_paths:
  "(ReconstructPaths_apply bd ts s = Some (Inr s') \<longrightarrow>
      (\<forall>t\<in>set ts. \<exists>ps. path_dictionary s' t = Some ps \<and> distinct ps)) \<and>
   util_rec d es (Util d) (v, p, s) =
     Some (Inr (v(d \<mapsto> False), p,
       if p @ [d] \<in> set (paths s) then s else s\<lparr>paths := paths s @ [p @ [d]]\<rparr>))"
proof (intro conjI impI ballI)
  fix t assume run: "ReconstructPaths_apply bd ts s = Some (Inr s')" and t: "t \<in> set ts"
  from run obtain s1 where a: "for_to_batch bd ts s = Some (Inr s1)"
    and pd: "path_dictionary s' = path_dictionary s1"
    by (auto simp: ReconstructPaths_apply_Inr)
  from for_to_batch_effect [OF a] t obtain ps where
    "path_dictionary s1 t = Some ps" "distinct ps" by auto
  then show "\<exists>ps. path_dictionary s' t = Some ps \<and> distinct ps" by (simp add: pd)
next
  show "util_rec d es (Util d) (v, p, s) =
     Some (Inr (v(d \<mapsto> False), p,
       if p @ [d] \<in> set (paths s) then s else s\<lparr>paths := paths s @ [p @ [d]]\<rparr>))"
    by (simp add: util_rec_Util)
qed

theorem no_duplicate_paths_witness:
  "ReconstructPaths_apply diamond_dict [''D''] (ReconstructPaths_init []) = Some (Inr diamond_result) \<and>
   (\<exists>ps. path_dictionary diamond_result ''D'' = Some ps \<and> distinct ps)"
  using no_duplicate_paths [where bd = diamond_dict and ts = "[''D'']"
      and s = "ReconstructPaths_init []" and s' = diamond_result]
  by (simp add: diamond_apply)

text \<open>
  Claim C7. In the graph that the expansion builds for a target, from any lineage map
  and on any graph the sink was added to, the target is a key and its adjacency list is
  empty; the same holds for the graph left in the instance when the loop body of \<open>apply\<close>
  returns.
\<close>

theorem target_is_sink:
  "(add_edges bd t (s\<lparr>edges := add_edge t None es\<rparr>) = Some s1 \<longrightarrow> edges s1 t = Some []) \<and>
   (apply_to_batch bd t s = Some r \<longrightarrow> (\<exists>s'. r = Inr s' \<and> edges s' t = Some []))"
proof (intro conjI impI)
  assume "add_edges bd t (s\<lparr>edges := add_edge t None es\<rparr>) = Some s1"
  then show "edges s1 t = Some []" by (rule expansion_effect)
next
  assume a: "apply_to_batch bd t s = Some r"
  show "\<exists>s'. r = Inr s' \<and> edges s' t = Some []"
  proof (rule apply_to_batch_effect [OF a])
    fix E ps S new
    assume "E t = Some []"
      and "\<And>s2. apply_to_batch bd t s2 =
              Some (Inr (s2\<lparr>edges := E, paths := ps, sources := S,
                     path_dictionary := (path_dictionary s2)(t \<mapsto> ps),
                     logger := logger s2 @ new\<rparr>))"
    with a show ?thesis by auto
  qed
qed

theorem target_is_sink_witness:
  "add_edges diamond_dict ''D'' ((ReconstructPaths_init [])\<lparr>edges := add_edge ''D'' None Map.empty\<rparr>) =
     Some (diamond_result\<lparr>paths := [], path_dictionary := Map.empty,
             logger := [(INFO, ''Reconstructing Paths'')]\<rparr>) \<and>
   edges (diamond_result\<lparr>paths := [], path_dictionary := Map.empty,
             logger := [(INFO, ''Reconstructing Paths'')]\<rparr>) ''D'' = Some []"
  using target_is_sink [where bd = diamond_dict and t = "''D''" and s = "ReconstructPaths_init []"
      and es = Map.empty
      and ?s1.0 = "diamond_result\<lparr>paths := [], path_dictionary := Map.empty,
             logger := [(INFO, ''Reconstructing Paths'')]\<rparr>"]
    diamond_expansion
  by (simp add: diamond_start_def ReconstructPaths_init_def)

text \<open>
  Claim C8. Whenever \<open>apply\<close> returns on a list of targets, the path list it holds for
  any target of the list is the path list that \<open>apply\<close> computes for that target alone,
  with the same lineage map, on any instance whatever its state: nothing of the earlier
  targets leaks into it.
\<close>

theorem no_state_leak:
  assumes "ReconstructPaths_apply bd ts s = Some (Inr s')" and "t \<in> set ts"
  shows "\<exists>s1. ReconstructPaths_apply bd [t] s0 = Some (Inr s1) \<and>
           path_dictionary s1 t = path_dictionary s' t"
proof -
  from assms(1) obtain sz where a: "for_to_batch bd ts s = Some (Inr sz)"
    and pd: "path_dictionary s' = path_dictionary sz"
    by (auto simp: ReconstructPaths_apply_Inr)
  from for_to_batch_effect [OF a] assms(2) obtain ps where
    ps: "path_dictionary sz t = Some ps"
    and alone: "\<forall>s0. \<exists>s1. apply_to_batch bd t s0 = Some (Inr s1) \<and> paths s1 = ps \<and>
                 path_dictionary s1 t = Some ps"
    by auto
  from alone obtain s1 where "apply_to_batch bd t s0 = Some (Inr s1)"
    "path_dictionary s1 t = Some ps" by blast
  then show ?thesis by (simp add: ReconstructPaths_apply_Inr pd ps)
qed

theorem no_state_leak_witness:
  "ReconstructPaths_apply diamond_dict [''B'', ''D''] (ReconstructPaths_init []) = Some (Inr diamond_both) \<and>
   ''D'' \<in> set [''B'', ''D''] \<and>
   (\<exists>s1. ReconstructPaths_apply diamond_dict [''D''] (ReconstructPaths_init []) = Some (Inr s1) \<and>
      path_dictionary s1 ''D'' = path_dictionary diamond_both ''D'')"
  using no_state_leak [OF diamond_apply_both, of "''D''" "ReconstructPaths_init []"]
  by (simp add: diamond_apply_both)

text \<open>
  Claim C9. The dictionary accumulates over the calls on one instance: after a first
  call on a fresh instance its keys are the targets of that call; after a second call its
  keys are the targets of both calls, and every entry that the second call does not
  recompute is the entry of the first call.
\<close>

theorem path_dictionary_accumulates:
  assumes "ReconstructPaths_apply bd1 ts1 (ReconstructPaths_init lg) = Some (Inr s1)"
    and "ReconstructPaths_apply bd2 ts2 s1 = Some (Inr s2)"
  shows "dom (path_dictionary s1) = set ts1 \<and>
         dom (path_dictionary s2) = set ts1 \<union> set ts2 \<and>
         (\<forall>t. t \<notin> set ts2 \<longrightarrow> path_dictionary s2 t = path_dictionary s1 t)"
proof -
  have key: "dom (path_dictionary s') = dom (path_dictionary s) \<union> set ts \<and>
      (\<forall>t. t \<notin> set ts \<longrightarrow> path_dictionary s' t = path_dictionary s t)"
    if "ReconstructPaths_apply bd ts s = Some (Inr s')" for bd ts s s'
  proof -
    from that obtain sz where a: "for_to_batch bd ts s = Some (Inr sz)"
      and pd: "path_dictionary s' = path_dictionary sz"
      by (auto simp: ReconstructPaths_apply_Inr)
    from for_to_batch_effect [OF a] have
      frame: "\<And>x. x \<notin> set ts \<Longrightarrow> path_dictionary sz x = path_dictionary s x"
      and each: "\<And>t. t \<in> set ts \<Longrightarrow> \<exists>ps. path_dictionary sz t = Some ps"
      by auto
    have "x \<in> dom (path_dictionary sz) \<longleftrightarrow> x \<in> dom (path_dictionary s) \<union> set ts" for x
    proof (cases "x \<in> set ts")
      case True
      with each [of x] show ?thesis by auto
    next
      case False
      with frame [of x] show ?thesis by (simp add: dom_def)
    qed
    then have "dom (path_dictionary sz) = dom (path_dictionary s) \<union> set ts" by blast
    with frame show ?thesis by (simp add: pd)
  qed
  from key [OF assms(1)] key [OF assms(2)] show ?thesis
    by (simp add: ReconstructPaths_init_def)
qed

theorem path_dictionary_accumulates_witness:
  "ReconstructPaths_apply diamond_dict [''D''] (ReconstructPaths_init []) = Some (Inr diamond_result) \<and>
   ReconstructPaths_apply diamond_dict [''B''] diamond_result = Some (Inr diamond_second) \<and>
   dom (path_dictionary diamond_result) = set [''D''] \<and>
   dom (path_dictionary diamond_second) = set [''D''] \<union> set [''B''] \<and>
   ''D'' \<notin> set [''B''] \<and>
   path_dictionary diamond_second ''D'' = path_dictionary diamond_result ''D''"
  using path_dictionary_accumulates [OF diamond_apply diamond_apply_second]
  by (simp add: diamond_apply diamond_apply_second)

text \<open>
  Claim C10. After the graph expansion that \<open>apply\<close> runs for a target, every node in
  an adjacency list of \<open>edges\<close> is a key of \<open>edges\<close> and so is every source; the path
  enumeration from any of these sources raises no exception, so every lookup
  \<open>edges[u]\<close> and \<open>visited[i]\<close> finds its key; and \<open>apply\<close>, whenever it returns,
  returns without an exception.
\<close>

theorem lookups_find_their_keys:
  "(add_edges bd t
      (s\<lparr>edges := Map.empty, paths := [], sources := []\<rparr>\<lparr>edges := add_edge t None Map.empty\<rparr>)
      = Some s1 \<longrightarrow>
      edges_closed (edges s1) \<and> set (sources s1) \<subseteq> dom (edges s1) \<and>
      (\<forall>src\<in>set (sources s1). \<forall>s2 r.
          determine_all_paths src t (edges s1) s2 = Some r \<longrightarrow> (\<exists>s3. r = Inr s3))) \<and>
   (ReconstructPaths_apply bd ts s = Some r \<longrightarrow> (\<exists>s'. r = Inr s'))"
proof (intro conjI impI)
  assume "add_edges bd t
      (s\<lparr>edges := Map.empty, paths := [], sources := []\<rparr>\<lparr>edges := add_edge t None Map.empty\<rparr>)
      = Some s1"
  then have run: "add_edges_rec bd (AddEdges t)
      (s\<lparr>paths := [], sources := [], edges := add_edge t None Map.empty\<rparr>) = Some s1"
    by (simp add: add_edges_def)
  from add_edges_rec_closed [OF run]
  show closed: "edges_closed (edges s1)" and src: "set (sources s1) \<subseteq> dom (edges s1)"
    by (simp_all add: edges_closed_sink dom_add_edge)
  show "\<forall>src\<in>set (sources s1). \<forall>s2 r.
          determine_all_paths src t (edges s1) s2 = Some r \<longrightarrow> (\<exists>s3. r = Inr s3)"
  proof (intro ballI allI impI)
    fix src s2 r
    assume "src \<in> set (sources s1)" and "determine_all_paths src t (edges s1) s2 = Some r"
    with closed src show "\<exists>s3. r = Inr s3"
      using determine_all_paths_no_error [of src t "edges s1" s2 r] by blast
  qed
next
  assume "ReconstructPaths_apply bd ts s = Some r"
  then show "\<exists>s'. r = Inr s'" by (rule ReconstructPaths_apply_Some)
qed

theorem lookups_find_their_keys_witness:
  "add_edges diamond_dict ''D'' diamond_start =
     Some (diamond_result\<lparr>paths := [], path_dictionary := Map.empty,
             logger := [(INFO, ''Reconstructing Paths'')]\<rparr>) \<and>
   edges_closed (edges diamond_result) \<and> set (sources diamond_result) \<subseteq> dom (edges diamond_result) \<and>
   ''A'' \<in> set (sources diamond_result) \<and>
   (\<exists>s3. determine_all_paths ''A'' ''D'' (edges diamond_result) diamond_start = Some (Inr s3)) \<and>
   ReconstructPaths_apply diamond_dict [''D''] (ReconstructPaths_init []) = Some (Inr diamond_result) \<and>
   (\<exists>s'. (Inr diamond_result :: py_error + ReconstructPaths) = Inr s')"
  using lookups_find_their_keys [where bd = diamond_dict and t = "''D''"
      and s = "ReconstructPaths_init []" and ts = "[''D'']" and r = "Inr diamond_result"
      and ?s1.0 = "diamond_result\<lparr>paths := [], path_dictionary := Map.empty,
             logger := [(INFO, ''Reconstructing Paths'')]\<rparr>"]
    diamond_expansion diamond_apply
  by (simp add: diamond_start_def diamond_result_def ReconstructPaths_init_def add_edge_def
      determine_all_paths_def determine_all_paths_util_def util_rec.simps Let_def)

end
